theory Spec2Isabelle
  imports Complex_Main "HOL-Library.Sublist"
begin

section \<open>The vector store of \<open>server/vectorStore.js\<close>\<close>

text \<open>
  JavaScript values are modelled as follows.  Strings are \<open>string\<close>; numbers that count
  or index (\<open>limit\<close>, \<open>maxTokens\<close>, \<open>tokenCount\<close>) are \<open>int\<close> or \<open>nat\<close>; scores,
  thresholds and vector components are \<open>real\<close> (exact arithmetic: rounding, overflow and
  \<open>NaN\<close> of IEEE doubles are outside the model).  An exception is the \<open>Inl\<close> branch of
  a sum; an optional argument with a default is an \<open>option\<close>.
\<close>

subsection \<open>Errors and \<open>try\<close>/\<open>catch\<close>\<close>

datatype error = StorageError | SyntaxError | ProviderError

definition try_catch :: "error + 'a \<Rightarrow> (error \<Rightarrow> error + 'a) \<Rightarrow> error + 'a" where
  "try_catch body handler = (case body of Inl e \<Rightarrow> handler e | Inr v \<Rightarrow> Inr v)"

definition default_arg :: "'a option \<Rightarrow> 'a \<Rightarrow> 'a" where
  "default_arg a d = (case a of None \<Rightarrow> d | Some v \<Rightarrow> v)"

subsection \<open>Stored data\<close>

text \<open>
  The column \<open>content_embedding\<close> holds text.  A text written by \<open>JSON.stringify\<close> parses
  back to the value it was made from; any other text either parses to some value that is
  not an array of numbers, or makes \<open>JSON.parse\<close> throw.
\<close>

datatype js_value = JArray "real list" | JOther

datatype stored_text = Json js_value | Garbage string

fun JSON_parse :: "stored_text \<Rightarrow> error + js_value" where
  "JSON_parse (Json v) = Inr v"
| "JSON_parse (Garbage s) = Inl SyntaxError"

definition JSON_stringify :: "real list \<Rightarrow> stored_text" where
  "JSON_stringify v = Json (JArray v)"

record chunk_row =
  row_id :: string
  document_id :: string
  document_title :: string
  chunk_text :: string
  chunk_index :: nat
  document_type :: string
  source_file :: "string option"
  created_at :: int

record store =
  document_chunks :: "chunk_row list"
  embeddings :: "(string \<times> stored_text) list"

record joined_row =
  j_id :: string
  j_document_id :: string
  j_document_title :: string
  j_chunk_text :: string
  j_chunk_index :: nat
  j_document_type :: string
  j_source_file :: "string option"
  j_embedding :: stored_text

record scored =
  s_id :: string
  s_document_id :: string
  s_document_title :: string
  s_chunk_text :: string
  s_chunk_index :: nat
  s_document_type :: string
  s_source_file :: "string option"
  relevanceScore :: real

record search_result = scored +
  citation :: string

record citation_entry =
  c_id :: string
  c_title :: string
  c_citation :: string
  c_relevanceScore :: real
  c_type :: string

record context_result =
  context_str :: string
  citations :: "citation_entry list"
  tokenCount :: int

text \<open>
  The world outside the store, as one call sees it: whether \<open>OPENAI_API_KEY\<close> is set,
  what the embedding provider answers (\<open>None\<close>: the call throws), the clock read at the
  \<open>k\<close>-th chunk of an ingestion, and which storage statements throw.
\<close>

record env =
  has_api_key :: bool
  provider :: "string \<Rightarrow> real list option"
  now :: "nat \<Rightarrow> int"
  insert_chunk_fails :: "string \<Rightarrow> bool"
  insert_embedding_fails :: "string \<Rightarrow> bool"
  select_fails :: bool

subsection \<open>\<open>cosineSimilarity\<close>\<close>

fun cos_loop :: "real list \<Rightarrow> real list \<Rightarrow> real \<times> real \<times> real \<Rightarrow> real \<times> real \<times> real" where
  "cos_loop (x # xs) (y # ys) (dot, na, nb) = cos_loop xs ys (dot + x * y, na + x * x, nb + y * y)"
| "cos_loop _ _ acc = acc"

fun cosineSimilarity :: "js_value \<Rightarrow> js_value \<Rightarrow> real" where
  "cosineSimilarity (JArray a) (JArray b) =
     (if length a \<noteq> length b then 0
      else (case cos_loop a b (0, 0, 0) of (dot, na, nb) \<Rightarrow>
        if na = 0 \<or> nb = 0 then 0 else dot / (sqrt na * sqrt nb)))"
| "cosineSimilarity _ _ = 0"

subsection \<open>\<open>generateEmbedding\<close>\<close>

definition charCodeAt_or_0 :: "string \<Rightarrow> nat \<Rightarrow> nat" where
  "charCodeAt_or_0 text i = (if text = [] then 0 else of_char (text ! (i mod length text)))"

definition pseudo :: "string \<Rightarrow> real list" where
  "pseudo text = map (\<lambda>i. (sin (real (charCodeAt_or_0 text i + i)) + 1) / 2) [0..<256]"

definition generateEmbedding :: "env \<Rightarrow> string \<Rightarrow> error + real list" where
  "generateEmbedding e text =
     try_catch
       (if \<not> has_api_key e then Inr (pseudo text)
        else try_catch
          (case provider e (take 8192 text) of
             None \<Rightarrow> Inl ProviderError
           | Some v \<Rightarrow> Inr v)
          (\<lambda>apiError. Inr (pseudo text)))
       (\<lambda>error. Inl error)"

subsection \<open>\<open>generateCitation\<close>\<close>

text \<open>A number inside a template literal is written in decimal.\<close>

definition digit :: "nat \<Rightarrow> char" where
  "digit d = ''0123456789'' ! d"

fun string_of_nat :: "nat \<Rightarrow> string" where
  "string_of_nat n =
     (if n < 10 then [digit n]
      else string_of_nat (n div 10) @ [digit (n mod 10)])"

definition truthy :: "string option \<Rightarrow> bool" where
  "truthy s = (case s of None \<Rightarrow> False | Some f \<Rightarrow> f \<noteq> [])"

definition generateCitation :: "scored \<Rightarrow> string" where
  "generateCitation chunk =
     (if truthy (s_source_file chunk)
      then s_document_title chunk @ '' ('' @ the (s_source_file chunk) @ '', section ''
             @ string_of_nat (s_chunk_index chunk + 1) @ '')''
      else s_document_title chunk @ '' ('' @ s_document_type chunk @ '', section ''
             @ string_of_nat (s_chunk_index chunk + 1) @ '')'')"

subsection \<open>\<open>chunkText\<close>\<close>

text \<open>
  The split of a text at the regular expression for white-space runs: the fields between maximal runs of white space; a text that
  starts or ends with white space has an empty first or last field, and the empty text
  gives one empty field.  Characters are the 8-bit \<open>char\<close>; among them the white space
  of the regular expression and of \<open>trim\<close> is tab, line feed, vertical tab, form feed, carriage
  return, space and no-break space.
\<close>

definition is_ws :: "char \<Rightarrow> bool" where
  "is_ws c = (of_char c \<in> {9, 10, 11, 12, 13, 32, 160 :: nat})"

function split_ws :: "string \<Rightarrow> string list" where
  "split_ws s =
     (if dropWhile (\<lambda>c. \<not> is_ws c) s = [] then [takeWhile (\<lambda>c. \<not> is_ws c) s]
      else takeWhile (\<lambda>c. \<not> is_ws c) s
             # split_ws (dropWhile is_ws (dropWhile (\<lambda>c. \<not> is_ws c) s)))"
  by pat_completeness auto
termination
proof (relation "measure length")
  show "wf (measure length)" by simp
next
  fix s :: string
  let ?r = "dropWhile (\<lambda>c. \<not> is_ws c) s"
  assume ne: "?r \<noteq> []"
  then have "is_ws (hd ?r)"
    using hd_dropWhile[of "\<lambda>c. \<not> is_ws c" s] by simp
  then have "dropWhile is_ws ?r = dropWhile is_ws (tl ?r)"
    using ne by (cases ?r) simp_all
  moreover have "length (dropWhile is_ws (tl ?r)) \<le> length (tl ?r)"
    by (rule length_dropWhile_le)
  moreover have "length (tl ?r) < length ?r" using ne by simp
  moreover have "length ?r \<le> length s" by (rule length_dropWhile_le)
  ultimately show "(dropWhile is_ws ?r, s) \<in> measure length" by simp
qed

declare split_ws.simps [simp del]

text \<open>\<open>trim\<close>, \<open>join(' ')\<close> and \<open>slice(i, j)\<close> for \<open>0 \<le> i\<close>.\<close>

definition trim :: "string \<Rightarrow> string" where
  "trim s = rev (dropWhile is_ws (rev (dropWhile is_ws s)))"

fun join_space :: "string list \<Rightarrow> string" where
  "join_space [] = []"
| "join_space (w # ws) = w @ concat (map (\<lambda>x. CHR '' '' # x) ws)"

definition slice :: "nat \<Rightarrow> nat \<Rightarrow> 'a list \<Rightarrow> 'a list" where
  "slice i j xs = take (j - i) (drop i xs)"

text \<open>
  The loop of \<open>chunkText\<close> advances \<open>i\<close> by \<open>maxChunkSize - overlap\<close>.  Sizes are
  natural numbers; when the overlap is not below the chunk size the step is 0 here (0 or
  negative in the source) and the loop never ends: the result is \<open>None\<close>.
\<close>

record chunk =
  ch_text :: string
  ch_index :: nat

partial_function (option) chunk_loop :: "string list \<Rightarrow> nat \<Rightarrow> nat \<Rightarrow> nat \<Rightarrow> chunk list \<Rightarrow> chunk list option" where
  "chunk_loop words maxChunkSize overlap i chunks =
     (if i < length words then
        chunk_loop words maxChunkSize overlap (i + (maxChunkSize - overlap))
          (if trim (join_space (slice i (i + maxChunkSize) words)) \<noteq> []
           then chunks @ [\<lparr>ch_text = trim (join_space (slice i (i + maxChunkSize) words)),
                           ch_index = i div (maxChunkSize - overlap)\<rparr>]
           else chunks)
      else Some chunks)"

definition chunkText :: "string \<Rightarrow> nat option \<Rightarrow> nat option \<Rightarrow> chunk list option" where
  "chunkText text maxChunkSize_arg overlap_arg =
     chunk_loop (split_ws text) (default_arg maxChunkSize_arg 1000) (default_arg overlap_arg 200) 0 []"

declare chunk_loop.simps [code]

subsection \<open>\<open>addDocument\<close>\<close>

record document =
  d_id :: string
  d_title :: string
  d_content :: string
  d_type :: string
  d_sourceFile :: "string option"

record add_result =
  success :: bool
  chunksCreated :: nat

text \<open>
  \<open>INSERT OR REPLACE\<close> on a table with a primary key: a row with the same key is
  deleted, and the new row is appended.
\<close>

definition insert_or_replace :: "('a \<Rightarrow> string) \<Rightarrow> 'a list \<Rightarrow> 'a \<Rightarrow> 'a list" where
  "insert_or_replace key rows r = filter (\<lambda>x. key x \<noteq> key r) rows @ [r]"

definition chunk_id :: "document \<Rightarrow> chunk \<Rightarrow> string" where
  "chunk_id doc chunk = d_id doc @ ''_chunk_'' @ string_of_nat (ch_index chunk)"

definition new_row :: "env \<Rightarrow> document \<Rightarrow> nat \<Rightarrow> chunk \<Rightarrow> chunk_row" where
  "new_row e doc k chunk =
     \<lparr>row_id = chunk_id doc chunk, document_id = d_id doc, document_title = d_title doc,
      chunk_text = ch_text chunk, chunk_index = ch_index chunk, document_type = d_type doc,
      source_file = d_sourceFile doc, created_at = now e k\<rparr>"

text \<open>
  The loop over the chunks, at its \<open>k\<close>-th iteration.  It returns the error that left
  the loop, if any, and the store as the statements executed so far have left it.
\<close>

fun add_chunks :: "env \<Rightarrow> document \<Rightarrow> chunk list \<Rightarrow> nat \<Rightarrow> store \<Rightarrow> error option \<times> store" where
  "add_chunks e doc [] k st = (None, st)"
| "add_chunks e doc (chunk # chunks) k st =
     (case generateEmbedding e (ch_text chunk) of
        Inl err \<Rightarrow> (Some err, st)
      | Inr embedding \<Rightarrow>
          if insert_chunk_fails e (chunk_id doc chunk) then (Some StorageError, st)
          else
            let st1 = st\<lparr>document_chunks :=
                        insert_or_replace row_id (document_chunks st) (new_row e doc k chunk)\<rparr>
            in if insert_embedding_fails e (chunk_id doc chunk) then (Some StorageError, st1)
               else add_chunks e doc chunks (Suc k)
                      (st1\<lparr>embeddings :=
                         insert_or_replace fst (embeddings st1)
                           (chunk_id doc chunk, JSON_stringify embedding)\<rparr>))"

text \<open>
  \<open>addDocument\<close> rethrows whatever its body throws.  The outer \<open>option\<close> is \<open>None\<close>
  when \<open>chunkText\<close> does not return.
\<close>

definition addDocument :: "env \<Rightarrow> store \<Rightarrow> document \<Rightarrow> ((error + add_result) \<times> store) option" where
  "addDocument e st doc =
     (case chunkText (d_content doc) None None of
        None \<Rightarrow> None
      | Some chunks \<Rightarrow>
          Some (case add_chunks e doc chunks 0 st of
                  (None, st') \<Rightarrow> (Inr \<lparr>success = True, chunksCreated = length chunks\<rparr>, st')
                | (Some err, st') \<Rightarrow> (Inl err, st')))"

subsection \<open>\<open>search\<close>\<close>

text \<open>
  The query of \<open>search\<close> has no \<open>ORDER BY\<close>.  SQLite runs it as a scan of
  \<open>embeddings\<close> with a lookup, by the primary-key index, of the row of
  \<open>document_chunks\<close> that has the same id (at most one), so the joined rows come in the
  storage order of \<open>embeddings\<close>.  The statement throws when the environment says so.
\<close>

definition join_row :: "chunk_row list \<Rightarrow> string \<times> stored_text \<Rightarrow> joined_row list" where
  "join_row dcs e =
     map (\<lambda>dc. \<lparr>j_id = row_id dc, j_document_id = document_id dc,
                j_document_title = document_title dc, j_chunk_text = chunk_text dc,
                j_chunk_index = chunk_index dc, j_document_type = document_type dc,
                j_source_file = source_file dc, j_embedding = snd e\<rparr>)
         (filter (\<lambda>dc. row_id dc = fst e) dcs)"

definition select_all :: "env \<Rightarrow> store \<Rightarrow> error + joined_row list" where
  "select_all e st =
     (if select_fails e then Inl StorageError
      else Inr (concat (map (join_row (document_chunks st)) (embeddings st))))"

text \<open>The scoring loop: a row whose embedding does not parse is skipped by the empty \<open>catch\<close>.\<close>

fun score_rows :: "real list \<Rightarrow> joined_row list \<Rightarrow> scored list" where
  "score_rows queryEmbedding [] = []"
| "score_rows queryEmbedding (row # rows) =
     (case JSON_parse (j_embedding row) of
        Inl err \<Rightarrow> score_rows queryEmbedding rows
      | Inr emb \<Rightarrow>
          \<lparr>s_id = j_id row, s_document_id = j_document_id row,
           s_document_title = j_document_title row, s_chunk_text = j_chunk_text row,
           s_chunk_index = j_chunk_index row, s_document_type = j_document_type row,
           s_source_file = j_source_file row,
           relevanceScore = cosineSimilarity (JArray queryEmbedding) emb\<rparr>
          # score_rows queryEmbedding rows)"

text \<open>
  \<open>Array.prototype.sort\<close> with the comparator \<open>b.relevanceScore - a.relevanceScore\<close>: a
  stable sort by descending score (ECMAScript 2019 on requires stability).
  \<open>slice(0, end)\<close> counts a negative \<open>end\<close> from the end of the array.
\<close>

definition sort_desc :: "scored list \<Rightarrow> scored list" where
  "sort_desc xs = sort_key (\<lambda>r. - relevanceScore r) xs"

definition slice0 :: "int \<Rightarrow> 'a list \<Rightarrow> 'a list" where
  "slice0 end xs =
     (if end < 0 then take (nat (int (length xs) + end)) xs else take (nat end) xs)"

definition with_citation :: "scored \<Rightarrow> search_result" where
  "with_citation r = scored.extend r (search_result.fields (generateCitation r))"

definition search :: "env \<Rightarrow> store \<Rightarrow> string \<Rightarrow> int option \<Rightarrow> real option \<Rightarrow> error + search_result list" where
  "search e st query limit_arg threshold_arg =
     (let limit = default_arg limit_arg 5; threshold = default_arg threshold_arg (7 / 10) in
      try_catch
        (case generateEmbedding e query of
           Inl err \<Rightarrow> Inl err
         | Inr queryEmbedding \<Rightarrow>
             (case select_all e st of
                Inl err \<Rightarrow> Inl err
              | Inr rows \<Rightarrow>
                  Inr (map with_citation
                        (slice0 limit
                          (sort_desc
                            (filter (\<lambda>r. relevanceScore r \<ge> threshold)
                              (score_rows queryEmbedding rows)))))))
        (\<lambda>error. Inr []))"

subsection \<open>\<open>getContext\<close>\<close>

definition estimatedTokens :: "search_result \<Rightarrow> int" where
  "estimatedTokens result = \<lceil>real (length (s_chunk_text result)) / 4\<rceil>"

definition cite :: "search_result \<Rightarrow> citation_entry" where
  "cite result =
     \<lparr>c_id = s_id result, c_title = s_document_title result, c_citation = citation result,
      c_relevanceScore = relevanceScore result, c_type = s_document_type result\<rparr>"

definition source_block :: "search_result \<Rightarrow> string" where
  "source_block result =
     [CHR 10, CHR 10] @ ''[Source: '' @ citation result @ '']'' @ [CHR 10] @ s_chunk_text result"

fun context_loop :: "int \<Rightarrow> search_result list \<Rightarrow> context_result \<Rightarrow> context_result" where
  "context_loop maxTokens [] acc = acc"
| "context_loop maxTokens (result # results) acc =
     (if tokenCount acc + estimatedTokens result > maxTokens then acc
      else context_loop maxTokens results
             \<lparr>context_str = context_str acc @ source_block result,
              citations = citations acc @ [cite result],
              tokenCount = tokenCount acc + estimatedTokens result\<rparr>)"

definition getContext :: "env \<Rightarrow> store \<Rightarrow> string \<Rightarrow> int option \<Rightarrow> error + context_result" where
  "getContext e st query maxTokens_arg =
     (let maxTokens = default_arg maxTokens_arg 4000 in
      case search e st query (Some 10) None of
        Inl err \<Rightarrow> Inl err
      | Inr results \<Rightarrow>
          Inr (context_loop maxTokens results \<lparr>context_str = [], citations = [], tokenCount = 0\<rparr>))"

subsection \<open>Reference notions used in the statements\<close>

text \<open>
  All stored chunks that can be scored for a query, in the order in which the query of
  \<open>search\<close> reads them (the storage order of their embeddings), before the threshold
  filter, the sort and the truncation of \<open>search\<close>.
\<close>

definition candidates :: "env \<Rightarrow> store \<Rightarrow> string \<Rightarrow> search_result list" where
  "candidates e st query =
     (case generateEmbedding e query of
        Inl err \<Rightarrow> []
      | Inr queryEmbedding \<Rightarrow>
          (case select_all e st of
             Inl err \<Rightarrow> []
           | Inr rows \<Rightarrow> map with_citation (score_rows queryEmbedding rows)))"

text \<open>
  The words of a chunk, the last \<open>n\<close> elements of a list, the non-empty fields of a
  text, and the \<open>k\<close>-th window of \<open>chunkText\<close> over a list of words.
\<close>

definition chunk_words :: "chunk \<Rightarrow> string list" where
  "chunk_words c = split_ws (ch_text c)"

definition last_n :: "nat \<Rightarrow> 'a list \<Rightarrow> 'a list" where
  "last_n n xs = drop (length xs - n) xs"

definition toks :: "string \<Rightarrow> string list" where
  "toks s = filter (\<lambda>x. x \<noteq> []) (split_ws s)"

definition window :: "string list \<Rightarrow> nat \<Rightarrow> nat \<Rightarrow> nat \<Rightarrow> string list" where
  "window ws S ov k = slice (k * (S - ov)) (k * (S - ov) + S) ws"

definition window_count :: "string list \<Rightarrow> nat \<Rightarrow> nat \<Rightarrow> nat" where
  "window_count ws S ov = (length ws + (S - ov) - 1) div (S - ov)"

definition window_chunk :: "string list \<Rightarrow> nat \<Rightarrow> nat \<Rightarrow> nat \<Rightarrow> chunk" where
  "window_chunk ws S ov k = \<lparr>ch_text = trim (join_space (window ws S ov k)), ch_index = k\<rparr>"


definition parses :: "stored_text \<Rightarrow> bool" where
  "parses t = (case JSON_parse t of Inl err \<Rightarrow> False | Inr v \<Rightarrow> True)"

text \<open>The store without the embeddings that \<open>JSON.parse\<close> rejects.\<close>

definition readable :: "store \<Rightarrow> store" where
  "readable st = st\<lparr>embeddings := filter (\<lambda>x. parses (snd x)) (embeddings st)\<rparr>"

text \<open>What \<open>generateEmbedding\<close> returns: the provider's vector, or the pseudo vector.\<close>

definition embedding_of :: "env \<Rightarrow> string \<Rightarrow> real list" where
  "embedding_of e t =
     (if has_api_key e then (case provider e (take 8192 t) of None \<Rightarrow> pseudo t | Some v \<Rightarrow> v)
      else pseudo t)"

text \<open>The rows and the embeddings that a run of the ingestion loop writes.\<close>

definition new_rows :: "env \<Rightarrow> document \<Rightarrow> nat \<Rightarrow> chunk list \<Rightarrow> chunk_row list" where
  "new_rows e doc k chunks = map (\<lambda>(j, c). new_row e doc j c) (zip [k ..< k + length chunks] chunks)"

definition new_embeddings :: "env \<Rightarrow> document \<Rightarrow> chunk list \<Rightarrow> (string \<times> stored_text) list" where
  "new_embeddings e doc chunks = map (\<lambda>c. (chunk_id doc c, JSON_stringify (embedding_of e (ch_text c)))) chunks"

text \<open>A chunk row with its time stamp blanked.\<close>

definition forget_time :: "chunk_row \<Rightarrow> chunk_row" where
  "forget_time r = r\<lparr>created_at := 0\<rparr>"

subsection \<open>Concrete stores and environments\<close>

text \<open>
  A provider that answers every text with the vector \<open>[1, 0]\<close>, and a store of three
  chunks whose embeddings have cosine similarity 1, 0 and 1 with that vector.
\<close>

definition env_ok :: env where
  "env_ok = \<lparr>has_api_key = True, provider = (\<lambda>t. Some [1, 0]), now = (\<lambda>k. 1700000000000),
     insert_chunk_fails = (\<lambda>i. False), insert_embedding_fails = (\<lambda>i. False),
     select_fails = False\<rparr>"

definition row_allergy :: chunk_row where
  "row_allergy = \<lparr>row_id = ''doc1_chunk_0'', document_id = ''doc1'',
     document_title = ''Allergy List'',
     chunk_text = ''Patient is allergic to penicillin and shellfish.'', chunk_index = 0,
     document_type = ''medical_record'', source_file = None, created_at = 1\<rparr>"

definition row_labs :: chunk_row where
  "row_labs = \<lparr>row_id = ''doc2_chunk_2'', document_id = ''doc2'',
     document_title = ''Labs'', chunk_text = ''LDL 130 mg/dL'', chunk_index = 2,
     document_type = ''lab_result'', source_file = None, created_at = 2\<rparr>"

definition row_note :: chunk_row where
  "row_note = \<lparr>row_id = ''doc3_chunk_0'', document_id = ''doc3'',
     document_title = ''Note'', chunk_text = ''Penicillin rash in 2019'', chunk_index = 0,
     document_type = ''note'', source_file = Some ''note.txt'', created_at = 3\<rparr>"

definition store_three :: store where
  "store_three = \<lparr>document_chunks = [row_allergy, row_labs, row_note],
     embeddings = [(''doc1_chunk_0'', Json (JArray [2, 0])),
                   (''doc2_chunk_2'', Json (JArray [0, 1])),
                   (''doc3_chunk_0'', Json (JArray [1, 0]))]\<rparr>"

text \<open>
  The same three chunks after a renewed ingestion of the first document that stopped
  between its two inserts: the chunk row has moved to the end of \<open>document_chunks\<close>,
  the embedding has kept its place.
\<close>

definition store_reingested :: store where
  "store_reingested = \<lparr>document_chunks = [row_labs, row_note, row_allergy],
     embeddings = [(''doc1_chunk_0'', Json (JArray [2, 0])),
                   (''doc2_chunk_2'', Json (JArray [0, 1])),
                   (''doc3_chunk_0'', Json (JArray [1, 0]))]\<rparr>"

definition result_allergy :: search_result where
  "result_allergy = \<lparr>s_id = ''doc1_chunk_0'', s_document_id = ''doc1'',
     s_document_title = ''Allergy List'',
     s_chunk_text = ''Patient is allergic to penicillin and shellfish.'', s_chunk_index = 0,
     s_document_type = ''medical_record'', s_source_file = None, relevanceScore = 1,
     citation = ''Allergy List (medical_record, section 1)''\<rparr>"

definition result_labs :: search_result where
  "result_labs = \<lparr>s_id = ''doc2_chunk_2'', s_document_id = ''doc2'',
     s_document_title = ''Labs'', s_chunk_text = ''LDL 130 mg/dL'', s_chunk_index = 2,
     s_document_type = ''lab_result'', s_source_file = None, relevanceScore = 0,
     citation = ''Labs (lab_result, section 3)''\<rparr>"

definition result_note :: search_result where
  "result_note = \<lparr>s_id = ''doc3_chunk_0'', s_document_id = ''doc3'',
     s_document_title = ''Note'', s_chunk_text = ''Penicillin rash in 2019'', s_chunk_index = 0,
     s_document_type = ''note'', s_source_file = Some ''note.txt'', relevanceScore = 1,
     citation = ''Note (note.txt, section 1)''\<rparr>"

definition empty_store :: store where
  "empty_store = \<lparr>document_chunks = [], embeddings = []\<rparr>"

definition doc_allergy :: document where
  "doc_allergy = \<lparr>d_id = ''doc1'', d_title = ''Allergy List'',
     d_content = ''Patient is allergic to penicillin and shellfish.'',
     d_type = ''medical_record'', d_sourceFile = None\<rparr>"

text \<open>The same environment one millisecond later.\<close>

definition env_later :: env where
  "env_later = env_ok\<lparr>now := (\<lambda>k. 1700000000001)\<rparr>"

text \<open>
  The store of three chunks with one embedding that is not JSON and one of another
  dimension than the provider's vectors.
\<close>

definition store_corrupt :: store where
  "store_corrupt = \<lparr>document_chunks = [row_allergy, row_labs, row_note],
     embeddings = [(''doc1_chunk_0'', Json (JArray [2, 0])),
                   (''doc2_chunk_2'', Garbage ''[0.1, 0.2''),
                   (''doc3_chunk_0'', Json (JArray [1, 2, 3]))]\<rparr>"

text \<open>
  An environment whose provider throws at every call, the store that ingesting
  \<open>doc_allergy\<close> under it leaves, and an environment whose storage cannot be read.
\<close>

definition env_down :: env where
  "env_down = env_ok\<lparr>provider := (\<lambda>t. None)\<rparr>"

definition store_down :: store where
  "store_down = \<lparr>document_chunks = [row_allergy\<lparr>created_at := 1700000000000\<rparr>],
     embeddings = [(''doc1_chunk_0'',
        JSON_stringify (pseudo ''Patient is allergic to penicillin and shellfish.''))]\<rparr>"

definition env_unreadable :: env where
  "env_unreadable = env_ok\<lparr>select_fails := True\<rparr>"

text \<open>The store after ingesting \<open>doc_allergy\<close> into the empty store at time \<open>t\<close>.\<close>

definition store_after :: "int \<Rightarrow> store" where
  "store_after t = \<lparr>document_chunks = [row_allergy\<lparr>created_at := t\<rparr>],
     embeddings = [(''doc1_chunk_0'', Json (JArray [1, 0]))]\<rparr>"

text \<open>
  A document of 1601 words, which \<open>chunkText\<close> cuts into three chunks, and an
  environment in which storing the embedding of its second chunk fails.
\<close>

definition doc_long :: document where
  "doc_long = \<lparr>d_id = ''long'', d_title = ''Long'',
     d_content = concat (replicate 1600 ''a '') @ ''b'',
     d_type = ''note'', d_sourceFile = None\<rparr>"

definition chunk_long_0 :: chunk where
  "chunk_long_0 = \<lparr>ch_text = trim (join_space (replicate 1000 ''a'')), ch_index = 0\<rparr>"

definition chunk_long_1 :: chunk where
  "chunk_long_1 = \<lparr>ch_text = trim (join_space (replicate 800 ''a'' @ [''b''])), ch_index = 1\<rparr>"

definition chunk_long_2 :: chunk where
  "chunk_long_2 = \<lparr>ch_text = ''b'', ch_index = 2\<rparr>"

definition env_embedding_insert_fails :: env where
  "env_embedding_insert_fails = env_ok\<lparr>insert_embedding_fails := (\<lambda>i. i = ''long_chunk_1'')\<rparr>"

definition row_long :: "string \<Rightarrow> chunk \<Rightarrow> chunk_row" where
  "row_long i c = \<lparr>row_id = i, document_id = ''long'', document_title = ''Long'',
     chunk_text = ch_text c, chunk_index = ch_index c, document_type = ''note'',
     source_file = None, created_at = 1700000000000\<rparr>"

section \<open>Properties of \<open>search\<close>\<close>

lemma try_catch_Inr_handler: "\<exists>v. try_catch body (\<lambda>e. Inr (h e)) = Inr v"
  by (cases body) (simp_all add: try_catch_def)

lemma generateEmbedding_total: "\<exists>v. generateEmbedding e text = Inr v"
  by (auto simp: generateEmbedding_def try_catch_def split: option.splits)

lemma relevanceScore_with_citation [simp]: "relevanceScore (with_citation r) = relevanceScore r"
  by (simp add: with_citation_def scored.defs search_result.defs)

lemma s_chunk_text_with_citation [simp]: "s_chunk_text (with_citation r) = s_chunk_text r"
  by (simp add: with_citation_def scored.defs search_result.defs)

lemma set_slice0: "set (slice0 n xs) \<subseteq> set xs"
  by (auto simp: slice0_def dest: in_set_takeD)

lemma length_slice0: "0 \<le> n \<Longrightarrow> int (length (slice0 n xs)) \<le> n"
  by (simp add: slice0_def)

lemma prefix_slice0: "prefix (slice0 n xs) xs"
  by (simp add: slice0_def take_is_prefix)

lemma set_sort_desc [simp]: "set (sort_desc xs) = set xs"
  by (simp add: sort_desc_def)

lemma search_cases:
  "(search e st q la ta = Inr [] \<and> select_fails e)
   \<or> (\<exists>qe rows. generateEmbedding e q = Inr qe \<and> select_all e st = Inr rows \<and>
        search e st q la ta = Inr (map with_citation (slice0 (default_arg la 5)
           (sort_desc (filter (\<lambda>r. relevanceScore r \<ge> default_arg ta (7/10)) (score_rows qe rows))))))"
  using generateEmbedding_total[of e q]
  by (auto simp: search_def try_catch_def select_all_def Let_def)

lemma sorted_sort_desc: "sorted_wrt (\<lambda>a b. relevanceScore a \<ge> relevanceScore b) (sort_desc xs)"
proof -
  have "sorted (map (\<lambda>r. - relevanceScore r) (sort_desc xs))"
    unfolding sort_desc_def by (rule sorted_sort_key)
  then show ?thesis
    by (simp add: sorted_wrt_map)
qed

lemma filter_score_sort_desc:
  "filter (\<lambda>r. relevanceScore r = k) (sort_desc xs) = filter (\<lambda>r. relevanceScore r = k) xs"
proof -
  have "filter (\<lambda>r. - relevanceScore r = - k) (sort_key (\<lambda>r. - relevanceScore r) xs)
        = filter (\<lambda>r. - relevanceScore r = - k) xs"
    by (rule sort_key_stable)
  then show ?thesis by (simp add: sort_desc_def)
qed

lemma sorted_wrt_slice0: "sorted_wrt P xs \<Longrightarrow> sorted_wrt P (slice0 n xs)"
  by (simp add: slice0_def sorted_wrt_take)

lemma prefix_filter: "prefix xs ys \<Longrightarrow> prefix (filter P xs) (filter P ys)"
  by (auto simp: prefix_def)

lemma search_properties:
  "\<exists>rs. search e st q la ta = Inr rs
     \<and> sorted_wrt (\<lambda>a b. relevanceScore a \<ge> relevanceScore b) rs
     \<and> (\<forall>k. prefix (filter (\<lambda>r. relevanceScore r = k) rs)
                    (filter (\<lambda>r. relevanceScore r = k) (candidates e st q)))
     \<and> (\<forall>r \<in> set rs. relevanceScore r \<ge> default_arg ta (7/10))
     \<and> (0 \<le> default_arg la 5 \<longrightarrow> int (length rs) \<le> default_arg la 5)"
proof -
  from search_cases[of e st q la ta] show ?thesis
  proof
    assume "search e st q la ta = Inr [] \<and> select_fails e"
    then show ?thesis by simp
  next
    assume "\<exists>qe rows. generateEmbedding e q = Inr qe \<and> select_all e st = Inr rows \<and>
        search e st q la ta = Inr (map with_citation (slice0 (default_arg la 5)
           (sort_desc (filter (\<lambda>r. relevanceScore r \<ge> default_arg ta (7/10)) (score_rows qe rows)))))"
    then obtain qe rows where qe: "generateEmbedding e q = Inr qe"
      and rows: "select_all e st = Inr rows"
      and s: "search e st q la ta = Inr (map with_citation (slice0 (default_arg la 5)
           (sort_desc (filter (\<lambda>r. relevanceScore r \<ge> default_arg ta (7/10)) (score_rows qe rows)))))"
      by blast
    let ?F = "filter (\<lambda>r. relevanceScore r \<ge> default_arg ta (7/10)) (score_rows qe rows)"
    let ?rs = "map with_citation (slice0 (default_arg la 5) (sort_desc ?F))"
    have sorted: "sorted_wrt (\<lambda>a b. relevanceScore a \<ge> relevanceScore b) ?rs"
      using sorted_wrt_slice0[OF sorted_sort_desc, of "default_arg la 5" ?F]
      by (simp add: sorted_wrt_map)
    have stable: "prefix (filter (\<lambda>r. relevanceScore r = k) ?rs)
                    (filter (\<lambda>r. relevanceScore r = k) (candidates e st q))" for k
    proof -
      have 1: "filter (\<lambda>r. relevanceScore r = k) ?rs
             = map with_citation (filter (\<lambda>r. relevanceScore r = k) (slice0 (default_arg la 5) (sort_desc ?F)))"
        by (simp add: filter_map comp_def)
      have 2: "prefix (filter (\<lambda>r. relevanceScore r = k) (slice0 (default_arg la 5) (sort_desc ?F)))
                      (filter (\<lambda>r. relevanceScore r = k) (sort_desc ?F))"
        by (rule prefix_filter[OF prefix_slice0])
      have 3: "filter (\<lambda>r. relevanceScore r = k) (sort_desc ?F) = filter (\<lambda>r. relevanceScore r = k) ?F"
        by (rule filter_score_sort_desc)
      have 4: "filter (\<lambda>r. relevanceScore r = k) ?F
             = (if k \<ge> default_arg ta (7/10) then filter (\<lambda>r. relevanceScore r = k) (score_rows qe rows) else [])"
        by (auto intro!: filter_cong simp: filter_empty_conv)
      have 5: "filter (\<lambda>r. relevanceScore r = k) (candidates e st q)
             = map with_citation (filter (\<lambda>r. relevanceScore r = k) (score_rows qe rows))"
        by (simp add: candidates_def qe rows filter_map comp_def)
      show ?thesis
      proof (cases "k \<ge> default_arg ta (7/10)")
        case True
        with 2 show ?thesis unfolding 1 3 4 5 by (simp add: map_mono_prefix)
      next
        case False
        with 2 show ?thesis unfolding 1 3 4 5 by simp
      qed
    qed
    let ?S = "slice0 (default_arg la 5) (sort_desc ?F)"
    have "set ?S \<subseteq> set ?F"
      using set_slice0[of "default_arg la 5" "sort_desc ?F"] by simp
    then have above: "\<forall>r \<in> set ?rs. relevanceScore r \<ge> default_arg ta (7/10)"
      by auto
    have atmost: "0 \<le> default_arg la 5 \<longrightarrow> int (length ?rs) \<le> default_arg la 5"
      by (simp add: length_slice0)
    show ?thesis using s sorted stable above atmost by blast
  qed
qed

section \<open>Properties of \<open>chunkText\<close>\<close>

lemma split_ws_end:
  "dropWhile (\<lambda>c. \<not> is_ws c) s = [] \<Longrightarrow> split_ws s = [takeWhile (\<lambda>c. \<not> is_ws c) s]"
  by (subst split_ws.simps) simp

lemma split_ws_more:
  "dropWhile (\<lambda>c. \<not> is_ws c) s \<noteq> [] \<Longrightarrow>
     split_ws s = takeWhile (\<lambda>c. \<not> is_ws c) s
                    # split_ws (dropWhile is_ws (dropWhile (\<lambda>c. \<not> is_ws c) s))"
  by (subst split_ws.simps) (simp only: if_False)

lemma split_ws_ne: "split_ws s \<noteq> []"
  by (cases "dropWhile (\<lambda>c. \<not> is_ws c) s = []") (simp_all only: split_ws_end split_ws_more list.simps not_False_eq_True)

lemma split_ws_ws_free: "w \<in> set (split_ws s) \<Longrightarrow> c \<in> set w \<Longrightarrow> \<not> is_ws c"
proof (induction s arbitrary: w rule: split_ws.induct)
  case (1 s)
  have tw: "\<not> is_ws c" if "c \<in> set (takeWhile (\<lambda>c. \<not> is_ws c) s)"
    using set_takeWhileD[OF that] by simp
  show ?case
  proof (cases "dropWhile (\<lambda>c. \<not> is_ws c) s = []")
    case True
    have "split_ws s = [takeWhile (\<lambda>c. \<not> is_ws c) s]"
      by (rule split_ws_end[OF True])
    with "1.prems"(1) have "w = takeWhile (\<lambda>c. \<not> is_ws c) s" by simp
    with "1.prems"(2) tw show ?thesis by blast
  next
    case False
    have "split_ws s = takeWhile (\<lambda>c. \<not> is_ws c) s
                    # split_ws (dropWhile is_ws (dropWhile (\<lambda>c. \<not> is_ws c) s))"
      by (rule split_ws_more[OF False])
    with "1.prems"(1) have "w = takeWhile (\<lambda>c. \<not> is_ws c) s
        \<or> w \<in> set (split_ws (dropWhile is_ws (dropWhile (\<lambda>c. \<not> is_ws c) s)))"
      by simp
    then show ?thesis
    proof
      assume "w = takeWhile (\<lambda>c. \<not> is_ws c) s"
      with "1.prems"(2) tw show ?thesis by blast
    next
      assume "w \<in> set (split_ws (dropWhile is_ws (dropWhile (\<lambda>c. \<not> is_ws c) s)))"
      then show ?thesis using "1.IH"[OF False _ "1.prems"(2)] by blast
    qed
  qed
qed

lemma split_ws_ws_head: "is_ws c \<Longrightarrow> split_ws (c # s) = [] # split_ws (dropWhile is_ws s)"
  using split_ws_more[of "c # s"] by simp

lemma split_ws_word:
  assumes "\<forall>c \<in> set w. \<not> is_ws c"
  shows "split_ws w = [w]"
proof -
  have "dropWhile (\<lambda>c. \<not> is_ws c) w = []" using assms by simp
  moreover have "takeWhile (\<lambda>c. \<not> is_ws c) w = w" using assms by simp
  ultimately show ?thesis using split_ws_end[of w] by simp
qed

lemma split_ws_word_ws:
  assumes "\<forall>c \<in> set w. \<not> is_ws c" and "is_ws c"
  shows "split_ws (w @ c # s) = w # split_ws (dropWhile is_ws s)"
proof -
  have d: "dropWhile (\<lambda>c. \<not> is_ws c) (w @ c # s) = c # s"
    using assms by (simp add: dropWhile_append3)
  have t: "takeWhile (\<lambda>c. \<not> is_ws c) (w @ c # s) = w"
    using assms by (simp add: takeWhile_tail)
  show ?thesis
    using split_ws_more[of "w @ c # s"] by (simp only: d t dropWhile.simps assms(2) if_True list.simps not_False_eq_True)
qed

lemma toks_dropWhile: "toks (dropWhile is_ws s) = toks s"
proof (induction s)
  case Nil
  show ?case by simp
next
  case (Cons c s)
  show ?case
  proof (cases "is_ws c")
    case True
    then have "toks (c # s) = toks (dropWhile is_ws s)"
      by (simp add: toks_def split_ws_ws_head)
    with True Cons show ?thesis by simp
  next
    case False
    then show ?thesis by simp
  qed
qed

lemma toks_word: "\<forall>c \<in> set w. \<not> is_ws c \<Longrightarrow> toks w = (if w = [] then [] else [w])"
  using split_ws_word[of w] by (simp add: toks_def)

lemma toks_word_ws:
  "\<forall>c \<in> set w. \<not> is_ws c \<Longrightarrow> is_ws c \<Longrightarrow> toks (w @ c # s) = (if w = [] then [] else [w]) @ toks s"
  using toks_dropWhile[of s] by (simp add: toks_def split_ws_word_ws)

lemma toks_ws_head: "is_ws c \<Longrightarrow> toks (c # s) = toks s"
  using toks_word_ws[of "[]" c s] by simp

lemma toks_join_aux:
  assumes "\<forall>x \<in> set (w # rest). \<forall>c \<in> set x. \<not> is_ws c"
  shows "toks (w @ concat (map (\<lambda>x. CHR '' '' # x) rest)) = filter (\<lambda>x. x \<noteq> []) (w # rest)"
  using assms
proof (induction rest arbitrary: w)
  case Nil
  then show ?case using toks_word[of w] by simp
next
  case (Cons x xs)
  have sp: "is_ws (CHR '' '')" by (simp add: is_ws_def)
  have w: "\<forall>c \<in> set w. \<not> is_ws c" using Cons.prems by simp
  have "toks (w @ CHR '' '' # (x @ concat (map (\<lambda>x. CHR '' '' # x) xs)))
        = (if w = [] then [] else [w]) @ toks (x @ concat (map (\<lambda>x. CHR '' '' # x) xs))"
    by (rule toks_word_ws[OF w sp])
  also have "toks (x @ concat (map (\<lambda>x. CHR '' '' # x) xs)) = filter (\<lambda>x. x \<noteq> []) (x # xs)"
    using Cons.IH[of x] Cons.prems by simp
  finally show ?case by simp
qed

lemma toks_join_space:
  "\<forall>x \<in> set ws. \<forall>c \<in> set x. \<not> is_ws c \<Longrightarrow> toks (join_space ws) = filter (\<lambda>x. x \<noteq> []) ws"
proof (cases ws)
  case Nil
  then show ?thesis using toks_word[of "[]"] by simp
next
  case (Cons w rest)
  assume "\<forall>x \<in> set ws. \<forall>c \<in> set x. \<not> is_ws c"
  then show ?thesis using toks_join_aux[of w rest] Cons by simp
qed

lemma toks_decompose:
  "dropWhile (\<lambda>c. \<not> is_ws c) t \<noteq> [] \<Longrightarrow>
     \<exists>w c r. t = w @ c # r \<and> (\<forall>x \<in> set w. \<not> is_ws x) \<and> is_ws c"
proof -
  assume ne: "dropWhile (\<lambda>c. \<not> is_ws c) t \<noteq> []"
  let ?w = "takeWhile (\<lambda>c. \<not> is_ws c) t" and ?r = "dropWhile (\<lambda>c. \<not> is_ws c) t"
  have 1: "t = ?w @ hd ?r # tl ?r" using ne by simp
  have 2: "is_ws (hd ?r)" using hd_dropWhile[OF ne] by simp
  have 3: "\<forall>x \<in> set ?w. \<not> is_ws x" by (auto dest: set_takeWhileD)
  from 1 2 3 show ?thesis by blast
qed

lemma toks_snoc_ws: "is_ws c \<Longrightarrow> toks (t @ [c]) = toks t"
proof (induction t rule: length_induct)
  case (1 t)
  show ?case
  proof (cases "dropWhile (\<lambda>c. \<not> is_ws c) t = []")
    case True
    then have wf: "\<forall>x \<in> set t. \<not> is_ws x" by simp
    have "toks (t @ c # []) = (if t = [] then [] else [t]) @ toks []"
      by (rule toks_word_ws[OF wf "1.prems"])
    then show ?thesis using toks_word[OF wf] toks_word[of "[]"] by simp
  next
    case False
    from toks_decompose[OF False] obtain w c' r where
      t: "t = w @ c' # r" and w: "\<forall>x \<in> set w. \<not> is_ws x" and c': "is_ws c'"
      by blast
    have "length r < length t" using t by simp
    then have ih: "toks (r @ [c]) = toks r" using "1.IH" "1.prems" by blast
    have "toks (t @ [c]) = toks (w @ c' # (r @ [c]))" using t by simp
    also have "\<dots> = (if w = [] then [] else [w]) @ toks (r @ [c])"
      by (rule toks_word_ws[OF w c'])
    also have "\<dots> = (if w = [] then [] else [w]) @ toks r" using ih by simp
    also have "\<dots> = toks (w @ c' # r)" by (rule toks_word_ws[OF w c', symmetric])
    finally show ?thesis using t by simp
  qed
qed

lemma toks_rev_dropWhile: "toks (rev (dropWhile is_ws u)) = toks (rev u)"
proof (induction u)
  case Nil
  show ?case by simp
next
  case (Cons c u)
  show ?case
  proof (cases "is_ws c")
    case True
    then show ?thesis using Cons toks_snoc_ws[of c "rev u"] by simp
  next
    case False
    then show ?thesis by simp
  qed
qed

lemma toks_trim: "toks (trim s) = toks s"
  using toks_rev_dropWhile[of "rev (dropWhile is_ws s)"] toks_dropWhile[of s]
  by (simp add: trim_def)

lemma split_ws_all_but_last_ne:
  "s = [] \<or> \<not> is_ws (hd s) \<Longrightarrow> Suc j < length (split_ws s) \<Longrightarrow> split_ws s ! j \<noteq> []"
proof (induction s arbitrary: j rule: split_ws.induct)
  case (1 s)
  let ?r = "dropWhile (\<lambda>c. \<not> is_ws c) s"
  show ?case
  proof (cases "?r = []")
    case True
    then show ?thesis using "1.prems"(2) by (simp add: split_ws_end)
  next
    case False
    let ?s' = "dropWhile is_ws ?r"
    have eq: "split_ws s = takeWhile (\<lambda>c. \<not> is_ws c) s # split_ws ?s'"
      by (rule split_ws_more[OF False])
    have sne: "s \<noteq> []" using False by auto
    then have hd: "\<not> is_ws (hd s)" using "1.prems"(1) by simp
    then have w: "takeWhile (\<lambda>c. \<not> is_ws c) s \<noteq> []" using sne by (cases s) simp_all
    have s': "?s' = [] \<or> \<not> is_ws (hd ?s')"
      using hd_dropWhile[of is_ws ?r] by blast
    show ?thesis
    proof (cases j)
      case 0
      then show ?thesis using eq w by simp
    next
      case (Suc j')
      then have "Suc j' < length (split_ws ?s')" using "1.prems"(2) eq by simp
      then have "split_ws ?s' ! j' \<noteq> []" using "1.IH"[OF False s'] by blast
      then show ?thesis using eq Suc by simp
    qed
  qed
qed

lemma split_ws_interior_ne:
  assumes "0 < j" and "Suc j < length (split_ws s)"
  shows "split_ws s ! j \<noteq> []"
proof -
  let ?r = "dropWhile (\<lambda>c. \<not> is_ws c) s"
  have ne: "?r \<noteq> []"
  proof
    assume "?r = []"
    then have "length (split_ws s) = 1" by (simp add: split_ws_end)
    with assms show False by simp
  qed
  let ?s' = "dropWhile is_ws ?r"
  have eq: "split_ws s = takeWhile (\<lambda>c. \<not> is_ws c) s # split_ws ?s'"
    by (rule split_ws_more[OF ne])
  have s': "?s' = [] \<or> \<not> is_ws (hd ?s')"
    using hd_dropWhile[of is_ws ?r] by blast
  obtain j' where j: "j = Suc j'" using assms(1) by (cases j) simp_all
  then have "Suc j' < length (split_ws ?s')" using assms(2) eq by simp
  then have "split_ws ?s' ! j' \<noteq> []" by (rule split_ws_all_but_last_ne[OF s'])
  then show ?thesis using eq j by simp
qed

lemma split_ws_last_empty:
  "last (split_ws s) = [] \<Longrightarrow> s = [] \<or> is_ws (last s)"
proof (induction s rule: split_ws.induct)
  case (1 s)
  let ?r = "dropWhile (\<lambda>c. \<not> is_ws c) s"
  show ?case
  proof (cases "?r = []")
    case True
    then have "split_ws s = [takeWhile (\<lambda>c. \<not> is_ws c) s]" by (rule split_ws_end)
    with "1.prems" have "takeWhile (\<lambda>c. \<not> is_ws c) s = []" by simp
    moreover have "takeWhile (\<lambda>c. \<not> is_ws c) s = s" using True by simp
    ultimately show ?thesis by simp
  next
    case False
    let ?s' = "dropWhile is_ws ?r"
    have eq: "split_ws s = takeWhile (\<lambda>c. \<not> is_ws c) s # split_ws ?s'"
      by (rule split_ws_more[OF False])
    then have "last (split_ws ?s') = []" using "1.prems" split_ws_ne[of ?s'] by simp
    then have ih: "?s' = [] \<or> is_ws (last ?s')" by (rule "1.IH"[OF False])
    have lr: "last s = last ?r"
      using last_appendR[OF False, of "takeWhile (\<lambda>c. \<not> is_ws c) s"] by simp
    show ?thesis
    proof (cases "?s' = []")
      case True
      then have "\<forall>x \<in> set ?r. is_ws x"
        by (simp only: dropWhile_eq_Nil_conv)
      moreover have "last ?r \<in> set ?r" by (rule last_in_set[OF False])
      ultimately have "is_ws (last ?r)" by blast
      then show ?thesis using lr by simp
    next
      case False
      then have "last ?r = last ?s'"
        using last_appendR[of ?s' "takeWhile is_ws ?r"] by simp
      with lr have ls: "last s = last ?s'" by (rule trans)
      from ih False have "is_ws (last ?s')" by blast
      then have "is_ws (last s)" by (simp only: ls)
      then show ?thesis by blast
    qed
  qed
qed

lemma split_ws_no_empty:
  assumes "s \<noteq> []" and "\<not> is_ws (hd s)" and "\<not> is_ws (last s)"
  shows "split_ws s = toks s"
proof -
  have "x \<noteq> []" if "x \<in> set (split_ws s)" for x
  proof -
    from that obtain j where j: "j < length (split_ws s)" and x: "x = split_ws s ! j"
      by (auto simp: in_set_conv_nth)
    show ?thesis
    proof (cases "Suc j < length (split_ws s)")
      case True
      then show ?thesis using split_ws_all_but_last_ne[of s j] assms(2) x by simp
    next
      case False
      then have "j = length (split_ws s) - 1" using j by arith
      then have "x = last (split_ws s)" using x split_ws_ne[of s]
        by (simp add: last_conv_nth)
      then show ?thesis using split_ws_last_empty[of s] assms by auto
    qed
  qed
  then show ?thesis by (simp add: toks_def)
qed

lemma trim_ends:
  assumes "trim s \<noteq> []"
  shows "\<not> is_ws (hd (trim s))" and "\<not> is_ws (last (trim s))"
proof -
  let ?d = "dropWhile is_ws s"
  let ?u = "dropWhile is_ws (rev ?d)"
  have une: "?u \<noteq> []" using assms by (simp add: trim_def)
  have "\<not> is_ws (hd ?u)" using hd_dropWhile[OF une] .
  then show "\<not> is_ws (last (trim s))" using une by (simp add: trim_def last_rev)
  have dne: "?d \<noteq> []"
  proof
    assume e: "?d = []"
    have "?u = []" by (simp only: e rev.simps dropWhile.simps)
    with une show False by blast
  qed
  have "rev (takeWhile is_ws (rev ?d) @ ?u) = ?d" by simp
  then have "rev ?u @ rev (takeWhile is_ws (rev ?d)) = ?d" by (simp only: rev_append)
  then have "hd ?d = hd (rev ?u @ rev (takeWhile is_ws (rev ?d)))" by simp
  then have "hd ?d = hd (rev ?u)" using une by simp
  moreover have "\<not> is_ws (hd ?d)" using hd_dropWhile[OF dne] .
  ultimately show "\<not> is_ws (hd (trim s))" by (simp add: trim_def)
qed

lemma split_ws_trim_join:
  assumes "\<forall>x \<in> set ws. \<forall>c \<in> set x. \<not> is_ws c" and "trim (join_space ws) \<noteq> []"
  shows "split_ws (trim (join_space ws)) = filter (\<lambda>x. x \<noteq> []) ws"
proof -
  have "split_ws (trim (join_space ws)) = toks (trim (join_space ws))"
    using split_ws_no_empty[OF assms(2)] trim_ends[OF assms(2)] by simp
  also have "\<dots> = toks (join_space ws)" by (rule toks_trim)
  also have "\<dots> = filter (\<lambda>x. x \<noteq> []) ws" by (rule toks_join_space[OF assms(1)])
  finally show ?thesis .
qed

lemma trim_join_empty_iff:
  assumes "\<forall>x \<in> set ws. \<forall>c \<in> set x. \<not> is_ws c"
  shows "trim (join_space ws) = [] \<longleftrightarrow> (\<forall>x \<in> set ws. x = [])"
proof -
  have "toks (trim (join_space ws)) = filter (\<lambda>x. x \<noteq> []) ws"
    using toks_trim toks_join_space[OF assms] by simp
  moreover have "toks (trim (join_space ws)) = [] \<longleftrightarrow> trim (join_space ws) = []"
  proof
    assume "toks (trim (join_space ws)) = []"
    show "trim (join_space ws) = []"
    proof (rule ccontr)
      assume ne: "trim (join_space ws) \<noteq> []"
      then have "split_ws (trim (join_space ws)) = toks (trim (join_space ws))"
        using split_ws_no_empty[OF ne] trim_ends[OF ne] by simp
      then show False using \<open>toks (trim (join_space ws)) = []\<close> split_ws_ne by simp
    qed
  next
    assume "trim (join_space ws) = []"
    then show "toks (trim (join_space ws)) = []" using toks_word[of "[]"] by simp
  qed
  ultimately show ?thesis by (simp add: filter_empty_conv)
qed

lemma window_count_iff: "0 < step \<Longrightarrow> k < (n + step - 1) div step \<longleftrightarrow> k * step < (n::nat)"
proof -
  assume s: "0 < step"
  have "k < (n + step - 1) div step \<longleftrightarrow> Suc k \<le> (n + step - 1) div step" by arith
  also have "\<dots> \<longleftrightarrow> Suc k * step \<le> n + step - 1"
    using s by (simp add: less_eq_div_iff_mult_less_eq)
  also have "\<dots> \<longleftrightarrow> k * step < n" using s by auto
  finally show ?thesis .
qed

lemma chunk_loop_closed:
  assumes "ov < S"
  shows "chunk_loop ws S ov (k * (S - ov)) acc =
         Some (acc @ map (window_chunk ws S ov)
                 (filter (\<lambda>k. ch_text (window_chunk ws S ov k) \<noteq> []) [k ..< window_count ws S ov]))"
proof (induction "window_count ws S ov - k" arbitrary: k acc)
  case 0
  then have "\<not> k < window_count ws S ov" by simp
  then have "\<not> k * (S - ov) < length ws"
    using assms window_count_iff[of "S - ov" k "length ws"] by (simp add: window_count_def)
  then show ?case using 0 by (subst chunk_loop.simps) simp
next
  case (Suc d)
  then have lt: "k < window_count ws S ov" by simp
  then have il: "k * (S - ov) < length ws"
    using assms window_count_iff[of "S - ov" k "length ws"] by (simp add: window_count_def)
  have d: "d = window_count ws S ov - Suc k" using Suc.hyps(2) by simp
  have idx: "k * (S - ov) div (S - ov) = k" using assms by simp
  have nxt: "k * (S - ov) + (S - ov) = Suc k * (S - ov)" by simp
  have upt: "[k ..< window_count ws S ov] = k # [Suc k ..< window_count ws S ov]"
    using lt by (simp add: upt_conv_Cons)
  show ?case
    apply (subst chunk_loop.simps)
    apply (simp only: il if_True nxt idx)
    apply (subst Suc.hyps(1)[OF d])
    apply (simp add: upt window_chunk_def window_def)
    done
qed

lemma chunkText_closed:
  assumes "default_arg ov 200 < default_arg ms 1000"
  shows "chunkText text ms ov =
         Some (map (window_chunk (split_ws text) (default_arg ms 1000) (default_arg ov 200))
                 (filter (\<lambda>k. ch_text (window_chunk (split_ws text) (default_arg ms 1000) (default_arg ov 200) k) \<noteq> [])
                    [0 ..< window_count (split_ws text) (default_arg ms 1000) (default_arg ov 200)]))"
  using chunk_loop_closed[OF assms, of "split_ws text" 0 "[]"]
  by (simp add: chunkText_def)

lemma take_filter_all: "\<forall>x \<in> set (take m xs). P x \<Longrightarrow> take m (filter P xs) = take m xs"
proof (induction xs arbitrary: m)
  case Nil
  show ?case by simp
next
  case (Cons x xs)
  show ?case
  proof (cases m)
    case 0
    then show ?thesis by simp
  next
    case (Suc m')
    with Cons.prems have "P x" and "\<forall>x \<in> set (take m' xs). P x" by simp_all
    then show ?thesis using Cons.IH[of m'] Suc by simp
  qed
qed

lemma window_words:
  assumes "ch_text (window_chunk (split_ws text) S ov k) \<noteq> []"
  shows "chunk_words (window_chunk (split_ws text) S ov k)
         = filter (\<lambda>x. x \<noteq> []) (window (split_ws text) S ov k)"
proof -
  have "set (window (split_ws text) S ov k) \<subseteq> set (split_ws text)"
    by (auto simp: window_def slice_def dest: in_set_takeD in_set_dropD)
  then have free: "\<forall>x \<in> set (window (split_ws text) S ov k). \<forall>c \<in> set x. \<not> is_ws c"
    using split_ws_ws_free by blast
  show ?thesis
    using split_ws_trim_join[OF free] assms
    by (simp add: chunk_words_def window_chunk_def)
qed

lemma overlap_core:
  fixes S ov k :: nat and content :: string
  defines "ws \<equiv> split_ws content"
  defines "a \<equiv> Suc k * (S - ov)"
  assumes SO: "ov < S"
    and long: "ov \<le> length (filter (\<lambda>x. x \<noteq> []) (window ws S ov (Suc k)))"
  shows "last_n ov (filter (\<lambda>x. x \<noteq> []) (window ws S ov k))
         = take ov (filter (\<lambda>x. x \<noteq> []) (window ws S ov (Suc k)))"
proof -
  let ?ne = "\<lambda>x::string. x \<noteq> []"
  let ?n = "length ws"
  have w1: "window ws S ov (Suc k) = take S (drop a ws)"
    by (simp add: window_def slice_def a_def)
  have w0: "window ws S ov k = take S (drop (k * (S - ov)) ws)"
    by (simp add: window_def slice_def)
  have len1: "length (window ws S ov (Suc k)) = min S (?n - a)"
    by (simp add: w1 min.commute)
  have "length (filter ?ne (window ws S ov (Suc k))) \<le> length (window ws S ov (Suc k))"
    by (rule length_filter_le)
  with long len1 have ovle: "ov \<le> min S (?n - a)" by simp
  show ?thesis
  proof (cases "ov = 0")
    case True
    then show ?thesis by (simp add: last_n_def)
  next
    case False
    then have ovpos: "0 < ov" by simp
    have an: "a + ov \<le> ?n" using ovle ovpos by arith
    have apos: "0 < a" using SO by (simp add: a_def)
    have ne: "ws ! j \<noteq> []" if j: "a \<le> j" "j < a + ov" for j
    proof (cases "Suc j < ?n")
      case True
      then show ?thesis
        using split_ws_interior_ne[of j content] j(1) apos by (simp add: ws_def)
    next
      case False
      then have jn: "a + ov = ?n" using j an by simp
      then have "length (window ws S ov (Suc k)) = ov" using len1 SO by simp
      with long have full: "length (filter ?ne (window ws S ov (Suc k))) = length (window ws S ov (Suc k))"
        using length_filter_le[of ?ne "window ws S ov (Suc k)"] by simp
      have all: "\<forall>x \<in> set (window ws S ov (Suc k)). x \<noteq> []"
      proof (rule ccontr)
        assume "\<not> (\<forall>x \<in> set (window ws S ov (Suc k)). x \<noteq> [])"
        then obtain x where "x \<in> set (window ws S ov (Suc k))" and "\<not> x \<noteq> []" by blast
        then have "length (filter ?ne (window ws S ov (Suc k))) < length (window ws S ov (Suc k))"
          by (rule length_filter_less)
        with full show False by simp
      qed
      have "ws ! j \<in> set (window ws S ov (Suc k))"
      proof -
        have "j - a < length (take S (drop a ws))" using j jn SO by simp
        moreover have "take S (drop a ws) ! (j - a) = ws ! j" using j jn SO by simp
        ultimately show ?thesis unfolding w1 by (metis nth_mem)
      qed
      with all show ?thesis by blast
    qed
    let ?mid = "take ov (drop a ws)"
    have midlen: "length ?mid = ov" using an by simp
    have midne: "\<forall>x \<in> set ?mid. x \<noteq> []"
    proof
      fix x assume "x \<in> set ?mid"
      then obtain i where i: "i < ov" and x: "x = ?mid ! i"
        using midlen by (metis in_set_conv_nth)
      have "?mid ! i = ws ! (a + i)" using i an by simp
      then show "x \<noteq> []" using ne[of "a + i"] i x by simp
    qed
    have t1: "take ov (window ws S ov (Suc k)) = ?mid"
      using SO by (simp add: w1 min.absorb1)
    have rhs: "take ov (filter ?ne (window ws S ov (Suc k))) = ?mid"
      using take_filter_all[of ov "window ws S ov (Suc k)" ?ne] midne t1 by simp
    have split: "take S (drop (k * (S - ov)) ws)
                 = take (S - ov) (drop (k * (S - ov)) ws) @ ?mid"
    proof -
      have "S = (S - ov) + ov" using SO by simp
      then have "take S (drop (k * (S - ov)) ws)
           = take ((S - ov) + ov) (drop (k * (S - ov)) ws)" by simp
      also have "\<dots> = take (S - ov) (drop (k * (S - ov)) ws)
                       @ take ov (drop (S - ov) (drop (k * (S - ov)) ws))"
        by (rule take_add)
      also have "drop (S - ov) (drop (k * (S - ov)) ws) = drop a ws"
        by (simp add: a_def add.commute)
      finally show ?thesis .
    qed
    have "filter ?ne (window ws S ov k)
          = filter ?ne (take (S - ov) (drop (k * (S - ov)) ws)) @ ?mid"
      using midne by (simp add: w0 split filter_id_conv)
    then have lhs: "last_n ov (filter ?ne (window ws S ov k)) = ?mid"
      using midlen by (simp add: last_n_def)
    show ?thesis using lhs rhs by simp
  qed
qed

lemma nonfinal_long:
  fixes S ov k :: nat and content :: string
  defines "ws \<equiv> split_ws content"
  assumes SO: "ov < S" and half: "2 * ov \<le> S"
    and nxt: "Suc (Suc k) * (S - ov) < length ws"
  shows "ov \<le> length (filter (\<lambda>x. x \<noteq> []) (window ws S ov (Suc k)))"
proof -
  let ?ne = "\<lambda>x::string. x \<noteq> []"
  let ?a = "Suc k * (S - ov)"
  let ?step = "S - ov"
  have w1: "window ws S ov (Suc k) = take S (drop ?a ws)"
    by (simp add: window_def slice_def)
  have split: "take S (drop ?a ws) = take ?step (drop ?a ws) @ take ov (drop ?step (drop ?a ws))"
  proof -
    have "S = ?step + ov" using SO by simp
    then have "take S (drop ?a ws) = take (?step + ov) (drop ?a ws)" by simp
    then show ?thesis by (simp only: take_add)
  qed
  have bound: "?a + ?step < length ws" using nxt by (simp add: algebra_simps)
  have len: "length (take ?step (drop ?a ws)) = ?step" using bound by simp
  have apos: "0 < ?a" using SO by simp
  have all: "\<forall>x \<in> set (take ?step (drop ?a ws)). x \<noteq> []"
  proof
    fix x assume "x \<in> set (take ?step (drop ?a ws))"
    then obtain i where i: "i < ?step" and x: "x = take ?step (drop ?a ws) ! i"
      using len by (metis in_set_conv_nth)
    have "take ?step (drop ?a ws) ! i = ws ! (?a + i)" using i bound by simp
    moreover have "ws ! (?a + i) \<noteq> []"
      using split_ws_interior_ne[of "?a + i" content] apos i bound by (simp add: ws_def)
    ultimately show "x \<noteq> []" using x by simp
  qed
  have "filter ?ne (take S (drop ?a ws))
        = take ?step (drop ?a ws) @ filter ?ne (take ov (drop ?step (drop ?a ws)))"
    using all by (simp only: split filter_append) (simp add: filter_id_conv)
  then have "length (filter ?ne (window ws S ov (Suc k))) \<ge> ?step"
    using len by (simp add: w1)
  moreover have "ov \<le> ?step" using half by simp
  ultimately show ?thesis by simp
qed

lemma kept_interior:
  assumes SO: "ov < S" and j: "0 < j" "Suc j < window_count (split_ws content) S ov"
  shows "ch_text (window_chunk (split_ws content) S ov j) \<noteq> []"
proof -
  let ?ws = "split_ws content"
  let ?i = "j * (S - ov)"
  have "Suc j * (S - ov) < length ?ws"
    using window_count_iff[of "S - ov" "Suc j" "length ?ws"] SO j(2)
    by (simp add: window_count_def)
  then have lt: "?i + (S - ov) < length ?ws" by (simp add: add.commute)
  then have si: "Suc ?i < length ?ws" using SO by arith
  have ipos: "0 < ?i" using SO j(1) by simp
  have ne: "?ws ! ?i \<noteq> []" by (rule split_ws_interior_ne[OF ipos si])
  have w: "window ?ws S ov j = take S (drop ?i ?ws)" by (simp add: window_def slice_def)
  have "take S (drop ?i ?ws) ! 0 = ?ws ! ?i" using SO si by simp
  moreover have "0 < length (take S (drop ?i ?ws))" using SO si by simp
  ultimately have mem: "?ws ! ?i \<in> set (window ?ws S ov j)"
    unfolding w by (metis nth_mem)
  have "set (window ?ws S ov j) \<subseteq> set ?ws"
    by (auto simp: window_def slice_def dest: in_set_takeD in_set_dropD)
  then have free: "\<forall>x \<in> set (window ?ws S ov j). \<forall>c \<in> set x. \<not> is_ws c"
    using split_ws_ws_free by blast
  show ?thesis
    using trim_join_empty_iff[OF free] mem ne by (auto simp: window_chunk_def)
qed

lemma filter_upt_consecutive:
  assumes inner: "\<And>j. 0 < j \<Longrightarrow> Suc j < m \<Longrightarrow> P j"
    and p: "Suc p < length (filter P [0..<m])"
  shows "filter P [0..<m] ! Suc p = Suc (filter P [0..<m] ! p)"
proof -
  let ?f = "filter P [0..<m]"
  have sorted: "sorted_wrt (<) ?f" by (simp add: sorted_wrt_filter)
  have xy: "?f ! p < ?f ! Suc p" using sorted p by (simp add: sorted_wrt_nth_less)
  have "?f ! Suc p \<in> set ?f" using p by (meson nth_mem)
  then have ym: "?f ! Suc p < m" by simp
  show ?thesis
  proof (rule ccontr)
    assume "?f ! Suc p \<noteq> Suc (?f ! p)"
    with xy have gap: "Suc (?f ! p) < ?f ! Suc p" by simp
    then have "P (Suc (?f ! p))" using inner[of "Suc (?f ! p)"] ym by simp
    then have "Suc (?f ! p) \<in> set ?f" using gap ym by simp
    then obtain q where q: "q < length ?f" and fq: "?f ! q = Suc (?f ! p)"
      by (metis in_set_conv_nth)
    have "p < q"
    proof (rule ccontr)
      assume "\<not> p < q"
      then have "q = p \<or> q < p" by arith
      then have "?f ! q \<le> ?f ! p"
        using sorted p sorted_wrt_nth_less[of "(<)" ?f q p] by auto
      with fq show False by simp
    qed
    moreover have "q < Suc p"
    proof (rule ccontr)
      assume "\<not> q < Suc p"
      then have "q = Suc p \<or> Suc p < q" by arith
      then have "?f ! Suc p \<le> ?f ! q"
        using sorted q sorted_wrt_nth_less[of "(<)" ?f "Suc p" q] by auto
      with fq gap show False by simp
    qed
    ultimately show False by simp
  qed
qed

section \<open>Properties of \<open>addDocument\<close>\<close>

lemma generateEmbedding_embed: "generateEmbedding e t = Inr (embedding_of e t)"
  by (simp add: generateEmbedding_def embedding_of_def try_catch_def split: option.splits)

lemma foldl_insert_or_replace:
  "foldl (insert_or_replace key) rows news
   = filter (\<lambda>x. key x \<notin> key ` set news) rows @ foldl (insert_or_replace key) [] news"
proof (induction news rule: rev_induct)
  case Nil
  show ?case by simp
next
  case (snoc r news)
  have "foldl (insert_or_replace key) rows (news @ [r])
        = filter (\<lambda>x. key x \<noteq> key r) (foldl (insert_or_replace key) rows news) @ [r]"
    by (simp add: insert_or_replace_def)
  also have "\<dots> = filter (\<lambda>x. key x \<noteq> key r)
                     (filter (\<lambda>x. key x \<notin> key ` set news) rows
                      @ foldl (insert_or_replace key) [] news) @ [r]"
    using snoc.IH by simp
  also have "\<dots> = filter (\<lambda>x. key x \<notin> key ` set (news @ [r])) rows
                   @ filter (\<lambda>x. key x \<noteq> key r) (foldl (insert_or_replace key) [] news) @ [r]"
    by (auto intro!: filter_cong)
  also have "filter (\<lambda>x. key x \<noteq> key r) (foldl (insert_or_replace key) [] news) @ [r]
             = foldl (insert_or_replace key) [] (news @ [r])"
    by (simp add: insert_or_replace_def)
  finally show ?case .
qed

lemma keys_foldl_insert_or_replace:
  "key ` set (foldl (insert_or_replace key) rows news) = key ` set rows \<union> key ` set news"
proof (induction news rule: rev_induct)
  case Nil
  show ?case by simp
next
  case (snoc r news)
  have "key ` set (foldl (insert_or_replace key) rows (news @ [r]))
        = key ` {x \<in> set (foldl (insert_or_replace key) rows news). key x \<noteq> key r} \<union> {key r}"
    by (simp add: insert_or_replace_def)
  also have "\<dots> = key ` set (foldl (insert_or_replace key) rows news) \<union> {key r}"
    by auto
  finally show ?case using snoc.IH by auto
qed

lemma map_foldl_insert_or_replace:
  assumes "\<And>x. key' (f x) = key x"
  shows "map f (foldl (insert_or_replace key) rows news)
         = foldl (insert_or_replace key') (map f rows) (map f news)"
proof (induction news rule: rev_induct)
  case Nil
  show ?case by simp
next
  case (snoc r news)
  have "map f (filter (\<lambda>x. key x \<noteq> key r) xs) = filter (\<lambda>y. key' y \<noteq> key' (f r)) (map f xs)" for xs
    by (simp add: filter_map comp_def assms)
  then show ?case using snoc.IH by (simp add: insert_or_replace_def)
qed

lemma foldl_insert_or_replace_twice:
  assumes "key ` set news2 = key ` set news1"
  shows "foldl (insert_or_replace key) (foldl (insert_or_replace key) rows news1) news2
         = filter (\<lambda>x. key x \<notin> key ` set news1) rows @ foldl (insert_or_replace key) [] news2"
proof -
  let ?K = "key ` set news1"
  have k: "key ` set (foldl (insert_or_replace key) [] news1) = ?K"
    using keys_foldl_insert_or_replace[of key "[]" news1] by simp
  have "filter (\<lambda>x. key x \<notin> ?K) (foldl (insert_or_replace key) [] news1) = []"
    using k by (auto simp: filter_empty_conv)
  then have "filter (\<lambda>x. key x \<notin> ?K) (foldl (insert_or_replace key) rows news1)
        = filter (\<lambda>x. key x \<notin> ?K) rows"
    by (subst foldl_insert_or_replace) simp
  then show ?thesis
    by (subst foldl_insert_or_replace) (simp add: assms)
qed

lemma add_chunks_ok:
  assumes "\<forall>c \<in> set chunks. \<not> insert_chunk_fails e (chunk_id doc c)
                           \<and> \<not> insert_embedding_fails e (chunk_id doc c)"
  shows "add_chunks e doc chunks k st =
     (None, \<lparr>document_chunks = foldl (insert_or_replace row_id) (document_chunks st) (new_rows e doc k chunks),
             embeddings = foldl (insert_or_replace fst) (embeddings st) (new_embeddings e doc chunks)\<rparr>)"
  using assms
proof (induction chunks arbitrary: k st)
  case Nil
  show ?case by (simp add: new_rows_def new_embeddings_def)
next
  case (Cons c chunks)
  have upt: "[k ..< Suc (k + length chunks)] = k # [Suc k ..< Suc (k + length chunks)]"
    using upt_conv_Cons[of k "Suc (k + length chunks)"] by simp
  show ?case
    using Cons.prems
    by (simp add: generateEmbedding_embed Cons.IH new_rows_def new_embeddings_def upt Let_def
             del: upt_Suc)
qed

lemma add_chunks_append:
  "add_chunks e doc (xs @ ys) k st =
     (case add_chunks e doc xs k st of
        (None, st1) \<Rightarrow> add_chunks e doc ys (k + length xs) st1
      | (Some err, st1) \<Rightarrow> (Some err, st1))"
proof (induction xs arbitrary: k st)
  case Nil
  show ?case by simp
next
  case (Cons x xs)
  show ?case
    by (simp add: generateEmbedding_embed Cons.IH Let_def split: prod.splits option.splits)
qed

lemma add_chunks_fail_head:
  assumes "insert_chunk_fails e (chunk_id doc c) \<or> insert_embedding_fails e (chunk_id doc c)"
  shows "add_chunks e doc (c # post) k st = (Some StorageError, snd (add_chunks e doc [c] k st))"
  using assms by (auto simp: generateEmbedding_embed Let_def)

lemma add_chunks_abort:
  assumes ok: "\<forall>x \<in> set pre. \<not> insert_chunk_fails e (chunk_id doc x)
                           \<and> \<not> insert_embedding_fails e (chunk_id doc x)"
    and fail: "insert_chunk_fails e (chunk_id doc c) \<or> insert_embedding_fails e (chunk_id doc c)"
  shows "add_chunks e doc (pre @ c # post) k st
         = (Some StorageError, snd (add_chunks e doc (pre @ [c]) k st))"
proof -
  obtain st1 where pre: "add_chunks e doc pre k st = (None, st1)"
    using add_chunks_ok[OF ok] by blast
  have "add_chunks e doc (pre @ c # post) k st = add_chunks e doc (c # post) (k + length pre) st1"
    by (simp add: add_chunks_append pre)
  also have "\<dots> = (Some StorageError, snd (add_chunks e doc [c] (k + length pre) st1))"
    by (rule add_chunks_fail_head[OF fail])
  also have "add_chunks e doc [c] (k + length pre) st1 = add_chunks e doc (pre @ [c]) k st"
    by (simp add: add_chunks_append pre)
  finally show ?thesis .
qed

lemma add_chunks_abort_ids:
  assumes ok: "\<forall>x \<in> set pre. \<not> insert_chunk_fails e (chunk_id doc x)
                           \<and> \<not> insert_embedding_fails e (chunk_id doc x)"
    and fail: "insert_chunk_fails e (chunk_id doc c) \<or> insert_embedding_fails e (chunk_id doc c)"
  shows "row_id ` set (document_chunks (snd (add_chunks e doc (pre @ [c]) k st)))
           \<subseteq> row_id ` set (document_chunks st) \<union> chunk_id doc ` set (pre @ [c])"
    and "fst ` set (embeddings (snd (add_chunks e doc (pre @ [c]) k st)))
           = fst ` set (embeddings st) \<union> chunk_id doc ` set pre"
proof -
  let ?st1 = "\<lparr>document_chunks = foldl (insert_or_replace row_id) (document_chunks st) (new_rows e doc k pre),
             embeddings = foldl (insert_or_replace fst) (embeddings st) (new_embeddings e doc pre)\<rparr>"
  have pre: "add_chunks e doc pre k st = (None, ?st1)" by (rule add_chunks_ok[OF ok])
  have all: "add_chunks e doc (pre @ [c]) k st = add_chunks e doc [c] (k + length pre) ?st1"
    by (simp add: add_chunks_append pre)
  have rows: "row_id ` set (new_rows e doc k pre) = chunk_id doc ` set pre"
  proof -
    have "map row_id (new_rows e doc k pre) = map (chunk_id doc) pre"
      by (rule nth_equalityI) (simp_all add: new_rows_def new_row_def)
    then have "set (map row_id (new_rows e doc k pre)) = set (map (chunk_id doc) pre)" by simp
    then show ?thesis by simp
  qed
  have embs: "fst ` set (new_embeddings e doc pre) = chunk_id doc ` set pre"
    by (force simp: new_embeddings_def)
  have k1: "row_id ` set (document_chunks ?st1) = row_id ` set (document_chunks st) \<union> chunk_id doc ` set pre"
    using keys_foldl_insert_or_replace[of row_id "document_chunks st" "new_rows e doc k pre"] rows by simp
  have k2: "fst ` set (embeddings ?st1) = fst ` set (embeddings st) \<union> chunk_id doc ` set pre"
    using keys_foldl_insert_or_replace[of fst "embeddings st" "new_embeddings e doc pre"] embs by simp
  show "row_id ` set (document_chunks (snd (add_chunks e doc (pre @ [c]) k st)))
           \<subseteq> row_id ` set (document_chunks st) \<union> chunk_id doc ` set (pre @ [c])"
    unfolding all using fail k1
    by (auto simp: generateEmbedding_embed Let_def insert_or_replace_def new_row_def)
  show "fst ` set (embeddings (snd (add_chunks e doc (pre @ [c]) k st)))
           = fst ` set (embeddings st) \<union> chunk_id doc ` set pre"
    unfolding all using fail k2
    by (auto simp: generateEmbedding_embed Let_def)
qed

lemma new_rows_ids: "map row_id (new_rows e doc k chunks) = map (chunk_id doc) chunks"
  by (rule nth_equalityI) (simp_all add: new_rows_def new_row_def)

lemma new_rows_forget:
  "map forget_time (new_rows e2 doc k chunks) = map forget_time (new_rows e1 doc k chunks)"
  by (rule nth_equalityI) (simp_all add: new_rows_def new_row_def forget_time_def)

lemma new_rows_same_clock:
  "\<forall>j. now e2 j = now e1 j \<Longrightarrow> new_rows e2 doc k chunks = new_rows e1 doc k chunks"
  by (rule nth_equalityI) (simp_all add: new_rows_def new_row_def)

lemma new_embeddings_ids: "map fst (new_embeddings e doc chunks) = map (chunk_id doc) chunks"
  by (simp add: new_embeddings_def comp_def)

lemma chunkText_default_total: "\<exists>chunks. chunkText content None None = Some chunks"
proof -
  have "default_arg (None::nat option) 200 < default_arg (None::nat option) 1000"
    by (simp add: default_arg_def)
  from chunkText_closed[OF this, of content] show ?thesis by blast
qed

lemma addDocument_ok:
  assumes chunks: "chunkText (d_content doc) None None = Some chunks"
    and ok: "\<forall>i. \<not> insert_chunk_fails e i \<and> \<not> insert_embedding_fails e i"
  shows "addDocument e st doc =
     Some (Inr \<lparr>success = True, chunksCreated = length chunks\<rparr>,
           \<lparr>document_chunks = foldl (insert_or_replace row_id) (document_chunks st) (new_rows e doc 0 chunks),
            embeddings = foldl (insert_or_replace fst) (embeddings st) (new_embeddings e doc chunks)\<rparr>)"
proof -
  have "\<forall>c \<in> set chunks. \<not> insert_chunk_fails e (chunk_id doc c)
                         \<and> \<not> insert_embedding_fails e (chunk_id doc c)"
    using ok by simp
  from add_chunks_ok[OF this, of 0 st] show ?thesis
    by (simp add: addDocument_def chunks)
qed

lemma reingest_rows:
  fixes f :: "'a \<Rightarrow> 'b"
  assumes keys: "map key news2 = map key news1"
    and same: "map f news2 = map f news1"
    and kf: "\<And>x. key' (f x) = key x"
  shows "map f (foldl (insert_or_replace key) (foldl (insert_or_replace key) rows news1) news2)
         = map f (foldl (insert_or_replace key) rows news1)"
proof -
  have k: "key ` set news2 = key ` set news1"
    using keys by (metis set_map)
  have m: "map f (foldl (insert_or_replace key) [] news2) = map f (foldl (insert_or_replace key) [] news1)"
    using map_foldl_insert_or_replace[of key' f key "[]", OF kf] same by simp
  have t: "foldl (insert_or_replace key) (foldl (insert_or_replace key) rows news1) news2
         = filter (\<lambda>x. key x \<notin> key ` set news1) rows @ foldl (insert_or_replace key) [] news2"
    by (rule foldl_insert_or_replace_twice[OF k])
  have o: "foldl (insert_or_replace key) rows news1
         = filter (\<lambda>x. key x \<notin> key ` set news1) rows @ foldl (insert_or_replace key) [] news1"
    by (rule foldl_insert_or_replace)
  show ?thesis
    by (simp only: t) (simp only: o map_append m)
qed

lemma reingest_same:
  assumes "news2 = news1"
  shows "foldl (insert_or_replace key) (foldl (insert_or_replace key) rows news1) news2
         = foldl (insert_or_replace key) rows news1"
proof -
  have t: "foldl (insert_or_replace key) (foldl (insert_or_replace key) rows news1) news1
         = filter (\<lambda>x. key x \<notin> key ` set news1) rows @ foldl (insert_or_replace key) [] news1"
    by (rule foldl_insert_or_replace_twice[OF refl])
  have o: "foldl (insert_or_replace key) rows news1
         = filter (\<lambda>x. key x \<notin> key ` set news1) rows @ foldl (insert_or_replace key) [] news1"
    by (rule foldl_insert_or_replace)
  show ?thesis
    unfolding assms using t o by (rule trans[OF _ sym])
qed

lemma digit_inj: "d < 10 \<Longrightarrow> d' < 10 \<Longrightarrow> digit d = digit d' \<Longrightarrow> d = d'"
proof -
  assume d: "d < 10" and d': "d' < 10" and eq: "digit d = digit d'"
  have dist: "distinct ''0123456789''" by simp
  have "d < length ''0123456789''" "d' < length ''0123456789''" using d d' by simp_all
  then show ?thesis using eq dist unfolding digit_def by (simp only: nth_eq_iff_index_eq)
qed

lemma string_of_nat_small: "n < 10 \<Longrightarrow> string_of_nat n = [digit n]"
  by (subst string_of_nat.simps) simp

lemma string_of_nat_big:
  "\<not> n < 10 \<Longrightarrow> string_of_nat n = string_of_nat (n div 10) @ [digit (n mod 10)]"
  by (subst string_of_nat.simps) simp

lemma string_of_nat_ne: "string_of_nat n \<noteq> []"
  by (cases "n < 10") (simp_all add: string_of_nat_small string_of_nat_big del: string_of_nat.simps)

lemma string_of_nat_inj: "string_of_nat n = string_of_nat m \<Longrightarrow> n = m"
proof (induction n arbitrary: m rule: string_of_nat.induct)
  case (1 n)
  show ?case
  proof (cases "n < 10")
    case True
    note n = True
    show ?thesis
    proof (cases "m < 10")
      case True
      then show ?thesis
        using "1.prems" n digit_inj[of n m]
        by (simp add: string_of_nat_small del: string_of_nat.simps)
    next
      case False
      then show ?thesis
        using "1.prems" n string_of_nat_ne[of "m div 10"]
        by (simp add: string_of_nat_small string_of_nat_big del: string_of_nat.simps)
    qed
  next
    case False
    note n = False
    show ?thesis
    proof (cases "m < 10")
      case True
      then show ?thesis
        using "1.prems" n string_of_nat_ne[of "n div 10"]
        by (simp add: string_of_nat_small string_of_nat_big del: string_of_nat.simps)
    next
      case False
      from "1.prems" n False
      have eq: "string_of_nat (n div 10) @ [digit (n mod 10)]
              = string_of_nat (m div 10) @ [digit (m mod 10)]"
        by (simp add: string_of_nat_big del: string_of_nat.simps)
      then have a: "string_of_nat (n div 10) = string_of_nat (m div 10)"
        and b: "digit (n mod 10) = digit (m mod 10)" by simp_all
      have "n div 10 = m div 10" by (rule "1.IH"[OF n a])
      moreover have "n mod 10 = m mod 10" using digit_inj[OF _ _ b] by simp
      ultimately show ?thesis by (metis div_mult_mod_eq)
    qed
  qed
qed

lemma chunk_id_inj: "chunk_id doc c = chunk_id doc c' \<Longrightarrow> ch_index c = ch_index c'"
  by (simp add: chunk_id_def string_of_nat_inj del: string_of_nat.simps)

lemma chunkText_default_indices:
  assumes "chunkText content None None = Some cs"
  shows "distinct (map ch_index cs)"
proof -
  have so: "default_arg (None::nat option) 200 < default_arg (None::nat option) 1000"
    by (simp add: default_arg_def)
  let ?ws = "split_ws content"
  let ?S = "default_arg (None::nat option) 1000" and ?O = "default_arg (None::nat option) 200"
  let ?f = "filter (\<lambda>k. ch_text (window_chunk ?ws ?S ?O k) \<noteq> []) [0 ..< window_count ?ws ?S ?O]"
  have "cs = map (window_chunk ?ws ?S ?O) ?f"
    using chunkText_closed[OF so, of content] assms by simp
  then have "map ch_index cs = ?f" by (simp add: window_chunk_def comp_def)
  then show ?thesis by simp
qed

lemma chunkText_default_ids:
  assumes "chunkText (d_content doc) None None = Some cs"
  shows "distinct (map (chunk_id doc) cs)"
proof -
  have d: "distinct (map ch_index cs)" by (rule chunkText_default_indices[OF assms])
  have "inj_on (chunk_id doc) (set cs)"
  proof (rule inj_onI)
    fix c c' assume c: "c \<in> set cs" and c': "c' \<in> set cs" and eq: "chunk_id doc c = chunk_id doc c'"
    have "ch_index c = ch_index c'" by (rule chunk_id_inj[OF eq])
    then show "c = c'" using d c c' by (meson distinct_map inj_onD)
  qed
  moreover have "distinct cs" using d by (simp add: distinct_map)
  ultimately show ?thesis by (simp add: distinct_map)
qed

lemma foldl_insert_or_replace_distinct:
  "distinct (map key news) \<Longrightarrow> foldl (insert_or_replace key) [] news = news"
proof (induction news rule: rev_induct)
  case Nil
  show ?case by simp
next
  case (snoc r news)
  then have d: "distinct (map key news)" and nr: "key r \<notin> key ` set news" by simp_all
  have "\<forall>x \<in> set news. key x \<noteq> key r"
    using nr by (metis imageI)
  then have "filter (\<lambda>x. key x \<noteq> key r) news = news"
    by (simp add: filter_id_conv)
  then show ?case using snoc.IH[OF d] by (simp add: insert_or_replace_def)
qed

lemma foldl_insert_or_replace_fresh:
  "distinct (map key news) \<Longrightarrow>
   foldl (insert_or_replace key) rows news = filter (\<lambda>x. key x \<notin> key ` set news) rows @ news"
  using foldl_insert_or_replace[of key rows news] foldl_insert_or_replace_distinct[of key news]
  by simp

lemma filter_key_new_rows:
  assumes "i \<notin> chunk_id doc ` set cs"
  shows "filter (\<lambda>r. row_id r = i) (new_rows e doc k cs) = []"
proof -
  have "row_id ` set (new_rows e doc k cs) = chunk_id doc ` set cs"
    using new_rows_ids[of e doc k cs] by (metis set_map)
  then show ?thesis using assms by (auto simp: filter_empty_conv)
qed

lemma filter_key_new_embeddings:
  assumes "i \<notin> chunk_id doc ` set cs"
  shows "filter (\<lambda>x. fst x = i) (new_embeddings e doc cs) = []"
proof -
  have "fst ` set (new_embeddings e doc cs) = chunk_id doc ` set cs"
    using new_embeddings_ids[of e doc cs] by (metis set_map)
  then show ?thesis using assms by (auto simp: filter_empty_conv)
qed

lemma filter_filter_other:
  assumes "i \<notin> K"
  shows "filter (\<lambda>r. key r = i) (filter (\<lambda>r. key r \<notin> K) rows) = filter (\<lambda>r. key r = i) rows"
  using assms by (induction rows) auto

section \<open>The order of the rows that \<open>search\<close> reads\<close>

lemma filter_key_distinct:
  "distinct (map key xs) \<Longrightarrow> filter (\<lambda>x. key x = i) xs = [] \<or> (\<exists>x. filter (\<lambda>x. key x = i) xs = [x])"
proof (induction xs)
  case Nil
  show ?case by simp
next
  case (Cons y ys)
  then have d: "distinct (map key ys)" and ny: "key y \<notin> key ` set ys" by simp_all
  show ?case
  proof (cases "key y = i")
    case True
    then have "\<forall>x \<in> set ys. key x \<noteq> i" using ny by (metis imageI)
    then have "filter (\<lambda>x. key x = i) ys = []" by (simp add: filter_empty_conv)
    then show ?thesis using True by simp
  next
    case False
    then show ?thesis using Cons.IH[OF d] by simp
  qed
qed

lemma join_row_ids:
  "distinct (map row_id dcs) \<Longrightarrow>
   map j_id (join_row dcs e) = [] \<or> map j_id (join_row dcs e) = [fst e]"
proof -
  assume "distinct (map row_id dcs)"
  from filter_key_distinct[OF this, of "fst e"]
  show ?thesis
  proof
    assume "filter (\<lambda>dc. row_id dc = fst e) dcs = []"
    then show ?thesis by (simp add: join_row_def)
  next
    assume "\<exists>x. filter (\<lambda>dc. row_id dc = fst e) dcs = [x]"
    then obtain x where x: "filter (\<lambda>dc. row_id dc = fst e) dcs = [x]" by blast
    then have "x \<in> set (filter (\<lambda>dc. row_id dc = fst e) dcs)" by simp
    then have "row_id x = fst e" by simp
    then show ?thesis using x by (simp add: join_row_def)
  qed
qed

lemma select_ids_subseq:
  assumes "distinct (map row_id dcs)"
  shows "subseq (map j_id (concat (map (join_row dcs) es))) (map fst es)"
proof (induction es)
  case Nil
  show ?case by simp
next
  case (Cons e es)
  from join_row_ids[OF assms, of e] show ?case
  proof
    assume "map j_id (join_row dcs e) = []"
    then show ?thesis using Cons.IH by (simp add: subseq_drop_many[of _ _ "[fst e]", simplified])
  next
    assume "map j_id (join_row dcs e) = [fst e]"
    then show ?thesis using Cons.IH by simp
  qed
qed

lemma score_rows_ids_subseq: "subseq (map s_id (score_rows qe rows)) (map j_id rows)"
proof (induction rows)
  case Nil
  show ?case by simp
next
  case (Cons row rows)
  show ?case
  proof (cases "JSON_parse (j_embedding row)")
    case (Inl err)
    then show ?thesis
      using Cons.IH by (simp add: subseq_drop_many[of _ _ "[j_id row]", simplified])
  next
    case (Inr emb)
    then show ?thesis using Cons.IH by simp
  qed
qed

lemma s_id_with_citation [simp]: "s_id (with_citation r) = s_id r"
  by (simp add: with_citation_def scored.defs search_result.defs)

lemma candidates_ids_subseq:
  assumes "distinct (map row_id (document_chunks st))"
  shows "subseq (map s_id (candidates e st q)) (map fst (embeddings st))"
proof (cases "select_fails e")
  case True
  then show ?thesis
    by (simp add: candidates_def select_all_def generateEmbedding_embed)
next
  case False
  let ?rows = "concat (map (join_row (document_chunks st)) (embeddings st))"
  have c: "candidates e st q = map with_citation (score_rows (embedding_of e q) ?rows)"
    using False by (simp add: candidates_def select_all_def generateEmbedding_embed)
  have "map s_id (candidates e st q) = map s_id (score_rows (embedding_of e q) ?rows)"
    unfolding c by (simp add: comp_def)
  moreover have "subseq (map s_id (score_rows (embedding_of e q) ?rows)) (map j_id ?rows)"
    by (rule score_rows_ids_subseq)
  moreover have "subseq (map j_id ?rows) (map fst (embeddings st))"
    by (rule select_ids_subseq[OF assms])
  ultimately show ?thesis by (metis subseq_order.trans)
qed

section \<open>Properties of \<open>cosineSimilarity\<close>, the pseudo vector and the scoring of rows\<close>

lemma cos_loop_sums:
  "length a = length b \<Longrightarrow>
   cos_loop a b (d, na, nb)
     = (d + sum_list (map2 (*) a b), na + sum_list (map (\<lambda>x. x * x) a),
        nb + sum_list (map (\<lambda>x. x * x) b))"
proof (induction a b arbitrary: d na nb rule: list_induct2)
  case Nil
  show ?case by simp
next
  case (Cons x xs y ys)
  show ?case by (simp add: Cons.IH algebra_simps)
qed

lemma sum_squares_nonneg: "0 \<le> sum_list (map (\<lambda>x::real. x * x) a)"
  by (induction a) simp_all

lemma sum_squares_pos: "x \<in> set a \<Longrightarrow> x \<noteq> 0 \<Longrightarrow> 0 < sum_list (map (\<lambda>x::real. x * x) a)"
proof (induction a)
  case Nil
  then show ?case by simp
next
  case (Cons y ys)
  show ?case
  proof (cases "x = y")
    case True
    then have "y \<noteq> 0" using Cons.prems(2) by simp
    then have "0 < y * y" by (simp add: zero_less_mult_iff) arith
    then show ?thesis using sum_squares_nonneg[of ys] by simp
  next
    case False
    then have "0 < sum_list (map (\<lambda>x. x * x) ys)" using Cons by simp
    moreover have "0 \<le> y * y" by simp
    ultimately have "0 < y * y + sum_list (map (\<lambda>x. x * x) ys)" by (rule add_nonneg_pos[rotated])
    then show ?thesis by simp
  qed
qed

lemma cosineSimilarity_sums:
  "length a = length b \<Longrightarrow>
   cosineSimilarity (JArray a) (JArray b)
     = (if sum_list (map (\<lambda>x. x * x) a) = 0 \<or> sum_list (map (\<lambda>x. x * x) b) = 0 then 0
        else sum_list (map2 (*) a b)
               / (sqrt (sum_list (map (\<lambda>x. x * x) a)) * sqrt (sum_list (map (\<lambda>x. x * x) b))))"
  by (simp add: cos_loop_sums)

lemma map2_self: "map2 (*) a a = map (\<lambda>x::real. x * x) a"
  by (induction a) simp_all

lemma cosineSimilarity_self:
  assumes "x \<in> set a" and "x \<noteq> 0"
  shows "cosineSimilarity (JArray a) (JArray a) = 1"
proof -
  have pos: "0 < sum_list (map (\<lambda>x. x * x) a)" by (rule sum_squares_pos[OF assms])
  then show ?thesis
    by (simp add: cosineSimilarity_sums map2_self del: cosineSimilarity.simps)
qed



lemma score_rows_skip:
  "score_rows qe rows = score_rows qe (filter (\<lambda>row. parses (j_embedding row)) rows)"
proof (induction rows)
  case Nil
  show ?case by simp
next
  case (Cons row rows)
  show ?case
    by (cases "JSON_parse (j_embedding row)") (simp_all add: parses_def Cons.IH)
qed


lemma sin_minus_one_pair:
  fixes x d :: real
  assumes "sin x = - 1" and "sin (x + d) = - 1" and "0 < d" and "d \<le> 3"
  shows False
proof -
  have "(sin x)\<^sup>2 + (cos x)\<^sup>2 = 1" by simp
  then have c0: "cos x = 0" using assms(1) by simp
  have "sin (x + d) = sin x * cos d + cos x * sin d" by (rule sin_add)
  then have "cos d = 1" using assms(1,2) c0 by simp
  then obtain n :: int where n: "d = of_int n * 2 * pi" using cos_one_2pi_int[of d] by blast
  have pi3: "2 \<le> pi" by (rule pi_ge_two)
  show False
  proof (cases "n \<le> 0")
    case True
    then have "of_int n * 2 * pi \<le> (0::real)"
      using pi3 by (simp add: mult_le_0_iff)
    then show False using n assms(3) by simp
  next
    case False
    then have "1 \<le> n" by simp
    then have "(1::real) \<le> of_int n" by simp
    then have "1 * (2 * pi) \<le> of_int n * (2 * pi)"
      using pi3 by (intro mult_right_mono) simp_all
    moreover have "3 < 1 * (2 * pi)" using pi3 by simp
    ultimately have "3 < of_int n * (2 * pi)" by (rule less_le_trans[rotated])
    then have "3 < of_int n * 2 * pi" by (simp add: mult.assoc)
    then show False using n assms(4) by simp
  qed
qed

lemma pseudo_nth: "i < 256 \<Longrightarrow> pseudo t ! i = (sin (real (charCodeAt_or_0 t i + i)) + 1) / 2"
  by (simp add: pseudo_def)

lemma length_pseudo [simp]: "length (pseudo t) = 256"
  by (simp add: pseudo_def)

lemma pseudo_nonzero:
  assumes i: "i < 256" and j: "j < 256"
    and d: "charCodeAt_or_0 t i + i < charCodeAt_or_0 t j + j"
           "charCodeAt_or_0 t j + j \<le> charCodeAt_or_0 t i + i + 3"
  shows "\<exists>x \<in> set (pseudo t). x \<noteq> 0"
proof (rule ccontr)
  assume "\<not> (\<exists>x \<in> set (pseudo t). x \<noteq> 0)"
  then have z: "\<forall>x \<in> set (pseudo t). x = 0" by blast
  have "pseudo t ! i \<in> set (pseudo t)" "pseudo t ! j \<in> set (pseudo t)"
    using i j by simp_all
  then have "pseudo t ! i = 0" "pseudo t ! j = 0" using z by blast+
  then have si: "sin (real (charCodeAt_or_0 t i + i)) = - 1"
    and sj: "sin (real (charCodeAt_or_0 t j + j)) = - 1"
    using i j by (simp_all add: pseudo_nth)
  let ?x = "real (charCodeAt_or_0 t i + i)"
  let ?d = "real (charCodeAt_or_0 t j + j) - ?x"
  have "sin (?x + ?d) = - 1" using sj by simp
  moreover have "0 < ?d" using d(1) by simp
  moreover have "?d \<le> 3" using d(2) by simp
  ultimately show False using sin_minus_one_pair[OF si] by blast
qed

lemma generateEmbedding_down: "\<forall>t. provider e t = None \<Longrightarrow> generateEmbedding e q = Inr (pseudo q)"
  by (simp add: generateEmbedding_def try_catch_def)

lemma search_env_cong:
  assumes "generateEmbedding e' q = generateEmbedding e q" and "select_fails e' = select_fails e"
  shows "search e' st q la ta = search e st q la ta"
proof -
  have "select_all e' st = select_all e st" using assms(2) by (simp add: select_all_def)
  then show ?thesis using assms(1) by (simp add: search_def split: sum.splits)
qed

lemma join_row_embedding: "row \<in> set (join_row dcs x) \<Longrightarrow> j_embedding row = snd x"
  by (auto simp: join_row_def)

lemma concat_join_filter:
  "concat (map (join_row dcs) (filter (\<lambda>x. parses (snd x)) es))
   = filter (\<lambda>row. parses (j_embedding row)) (concat (map (join_row dcs) es))"
proof (induction es)
  case Nil
  show ?case by simp
next
  case (Cons x es)
  have all: "filter (\<lambda>row. parses (j_embedding row)) (join_row dcs x)
             = (if parses (snd x) then join_row dcs x else [])"
    using join_row_embedding[of _ dcs x] by (auto simp: filter_id_conv filter_empty_conv)
  show ?case using Cons.IH all by simp
qed

lemma search_readable: "search e (readable st) q la ta = search e st q la ta"
proof -
  have sel: "select_all e (readable st)
             = (case select_all e st of Inl err \<Rightarrow> Inl err
                | Inr rows \<Rightarrow> Inr (filter (\<lambda>row. parses (j_embedding row)) rows))"
    by (simp add: select_all_def readable_def concat_join_filter)
  show ?thesis
    unfolding search_def sel
    by (cases "select_all e st") (simp_all add: generateEmbedding_embed score_rows_skip[symmetric])
qed

section \<open>Evaluation on the concrete store\<close>

lemma cos_10_20: "cosineSimilarity (JArray [1, 0]) (JArray [2, 0]) = 1"
  by (simp add: real_sqrt_mult)

lemma cos_10_01: "cosineSimilarity (JArray [1, 0]) (JArray [0, 1]) = 0"
  by simp

lemma cos_10_10: "cosineSimilarity (JArray [1, 0]) (JArray [1, 0]) = 1"
  by simp

lemmas ex_defs = env_ok_def store_three_def row_allergy_def row_labs_def row_note_def
  result_allergy_def result_labs_def result_note_def
lemmas search_eval = search_def default_arg_def try_catch_def generateEmbedding_def
      select_all_def join_row_def sort_desc_def slice0_def with_citation_def scored.defs search_result.defs
      generateCitation_def truthy_def digit_def

lemma search_three_all:
  "search env_ok store_three ''penicillin'' (Some 5) (Some 0) = Inr [result_allergy, result_note, result_labs]"
  by (simp add: search_eval ex_defs cos_10_20 cos_10_01 cos_10_10 del: cosineSimilarity.simps)

lemma search_three_negative_limit:
  "search env_ok store_three ''penicillin'' (Some (-1)) (Some 0) = Inr [result_allergy, result_note]"
  by (simp add: search_eval ex_defs cos_10_20 cos_10_01 cos_10_10 del: cosineSimilarity.simps)

lemma search_three_default:
  "search env_ok store_three ''penicillin'' (Some 10) None = Inr [result_allergy, result_note]"
  by (simp add: search_eval ex_defs cos_10_20 cos_10_01 cos_10_10 del: cosineSimilarity.simps)

lemma candidates_three:
  "candidates env_ok store_three ''penicillin'' = [result_allergy, result_labs, result_note]"
  by (simp add: candidates_def search_eval ex_defs cos_10_20 cos_10_01 cos_10_10
           del: cosineSimilarity.simps)

lemma estimatedTokens_allergy: "estimatedTokens result_allergy = 12"
  by (simp add: estimatedTokens_def result_allergy_def)

lemma estimatedTokens_note: "estimatedTokens result_note = 6"
  by (simp add: estimatedTokens_def result_note_def)


lemma getContext_three_default:
  "getContext env_ok store_three ''penicillin'' None =
     Inr \<lparr>context_str = source_block result_allergy @ source_block result_note,
          citations = [cite result_allergy, cite result_note], tokenCount = 18\<rparr>"
  by (simp add: getContext_def search_three_default default_arg_def estimatedTokens_allergy estimatedTokens_note)


lemma context_loop_greedy:
  "\<exists>k \<le> length rs.
     context_loop m rs acc =
       \<lparr>context_str = context_str acc @ concat (map source_block (take k rs)),
        citations = citations acc @ map cite (take k rs),
        tokenCount = tokenCount acc + sum_list (map estimatedTokens (take k rs))\<rparr>
     \<and> (k < length rs \<longrightarrow>
           tokenCount acc + sum_list (map estimatedTokens (take k rs)) + estimatedTokens (rs ! k) > m)
     \<and> (tokenCount acc \<le> m \<longrightarrow>
           tokenCount acc + sum_list (map estimatedTokens (take k rs)) \<le> m)"
proof (induction rs arbitrary: acc)
  case Nil
  show ?case by simp
next
  case (Cons r rs)
  show ?case
  proof (cases "tokenCount acc + estimatedTokens r > m")
    case True
    then have "context_loop m (r # rs) acc = acc" by simp
    with True show ?thesis
      by (intro exI[of _ 0]) simp
  next
    case False
    let ?acc = "\<lparr>context_str = context_str acc @ source_block r,
                 citations = citations acc @ [cite r],
                 tokenCount = tokenCount acc + estimatedTokens r\<rparr>"
    from Cons.IH[of ?acc] obtain k where k: "k \<le> length rs"
      and eq: "context_loop m rs ?acc =
         \<lparr>context_str = context_str ?acc @ concat (map source_block (take k rs)),
          citations = citations ?acc @ map cite (take k rs),
          tokenCount = tokenCount ?acc + sum_list (map estimatedTokens (take k rs))\<rparr>"
      and stop: "k < length rs \<longrightarrow>
           tokenCount ?acc + sum_list (map estimatedTokens (take k rs)) + estimatedTokens (rs ! k) > m"
      and bound: "tokenCount ?acc \<le> m \<longrightarrow>
           tokenCount ?acc + sum_list (map estimatedTokens (take k rs)) \<le> m"
      by blast
    have step: "context_loop m (r # rs) acc = context_loop m rs ?acc"
      using False by simp
    show ?thesis
    proof (intro exI[of _ "Suc k"] conjI)
      show "Suc k \<le> length (r # rs)" using k by simp
      show "context_loop m (r # rs) acc =
         \<lparr>context_str = context_str acc @ concat (map source_block (take (Suc k) (r # rs))),
          citations = citations acc @ map cite (take (Suc k) (r # rs)),
          tokenCount = tokenCount acc + sum_list (map estimatedTokens (take (Suc k) (r # rs)))\<rparr>"
        unfolding step eq by simp
      show "Suc k < length (r # rs) \<longrightarrow>
          m < tokenCount acc + sum_list (map estimatedTokens (take (Suc k) (r # rs)))
              + estimatedTokens ((r # rs) ! Suc k)"
        using stop by (simp add: add.assoc)
      show "tokenCount acc \<le> m \<longrightarrow>
          tokenCount acc + sum_list (map estimatedTokens (take (Suc k) (r # rs))) \<le> m"
        using bound False by simp
    qed
  qed
qed

lemma search_total: "\<exists>rs. search e st q la ta = Inr rs"
  by (simp add: search_def Let_def try_catch_Inr_handler)

lemma not_ws_a: "\<not> is_ws CHR ''a''" and not_ws_b: "\<not> is_ws CHR ''b''" and ws_space: "is_ws CHR '' ''"
  by (simp_all add: is_ws_def)

lemma split_ws_long: "split_ws (concat (replicate n ''a '') @ ''b'') = replicate n ''a'' @ [''b'']"
proof (induction n)
  case 0
  show ?case using split_ws_word[of "''b''"] by (simp add: not_ws_b)
next
  case (Suc n)
  let ?rest = "concat (replicate n ''a '') @ ''b''"
  have hd: "\<not> is_ws (hd ?rest)" by (cases n) (simp_all add: not_ws_a not_ws_b)
  have ne: "?rest \<noteq> []" by simp
  have dw: "dropWhile is_ws ?rest = ?rest" using hd ne by (cases ?rest) simp_all
  have "split_ws (''a'' @ CHR '' '' # ?rest) = ''a'' # split_ws (dropWhile is_ws ?rest)"
    by (rule split_ws_word_ws) (simp_all add: not_ws_a ws_space)
  then show ?case using Suc dw by simp
qed

lemma chunkText_long:
  "chunkText (d_content doc_long) None None = Some [chunk_long_0, chunk_long_1, chunk_long_2]"
proof -
  let ?ws = "replicate 1600 ''a'' @ [''b'']"
  have ws: "split_ws (d_content doc_long) = ?ws" by (simp add: doc_long_def split_ws_long)
  have so: "default_arg (None::nat option) 200 < default_arg (None::nat option) 1000"
    by (simp add: default_arg_def)
  have d: "default_arg (None::nat option) 1000 = 1000" "default_arg (None::nat option) 200 = 200"
    by (simp_all add: default_arg_def)
  have wc: "window_count ?ws 1000 200 = 3" by (simp add: window_count_def)
  have w0: "window ?ws 1000 200 0 = replicate 1000 ''a''" by (simp add: window_def slice_def)
  have w1: "window ?ws 1000 200 (Suc 0) = replicate 800 ''a'' @ [''b'']"
    by (simp add: window_def slice_def)
  have w2: "window ?ws 1000 200 2 = [''b'']" by (simp add: window_def slice_def)
  have t2: "trim ''b'' = ''b''" by (simp add: trim_def not_ws_b)
  have free0: "\<forall>x \<in> set (replicate 1000 ''a''). \<forall>c \<in> set x. \<not> is_ws c"
    by (auto simp: not_ws_a)
  have t0: "trim (join_space (replicate 1000 ''a'')) \<noteq> []"
    using trim_join_empty_iff[OF free0] by auto
  have free1: "\<forall>x \<in> set (replicate 800 ''a'' @ [''b'']). \<forall>c \<in> set x. \<not> is_ws c"
    by (auto simp: not_ws_a not_ws_b)
  have t1: "trim (join_space (replicate 800 ''a'' @ [''b''])) \<noteq> []"
    using trim_join_empty_iff[OF free1] by auto
  have upt: "[0..<3] = [0, Suc 0, 2]" by (simp add: upt_rec)
  show ?thesis
    using chunkText_closed[OF so, of "d_content doc_long"]
    by (simp add: ws d wc upt window_chunk_def w0 w1 w2 t0 t1 t2
          chunk_long_0_def chunk_long_1_def chunk_long_2_def)
qed

lemma chunk_ids_long:
  "chunk_id doc_long chunk_long_0 = ''long_chunk_0''"
  "chunk_id doc_long chunk_long_1 = ''long_chunk_1''"
  "chunk_id doc_long chunk_long_2 = ''long_chunk_2''"
  by (simp_all add: chunk_id_def doc_long_def chunk_long_0_def chunk_long_1_def chunk_long_2_def digit_def)

lemma addDocument_long_fails:
  "addDocument env_embedding_insert_fails empty_store doc_long =
     Some (Inl StorageError,
           \<lparr>document_chunks = [row_long ''long_chunk_0'' chunk_long_0, row_long ''long_chunk_1'' chunk_long_1],
            embeddings = [(''long_chunk_0'', Json (JArray [1, 0]))]\<rparr>)"
proof -
  have e: "insert_embedding_fails env_embedding_insert_fails = (\<lambda>i. i = ''long_chunk_1'')"
    "insert_chunk_fails env_embedding_insert_fails = (\<lambda>i. False)"
    "embedding_of env_embedding_insert_fails = (\<lambda>t. [1, 0])"
    "now env_embedding_insert_fails = (\<lambda>k. 1700000000000)"
    by (simp_all add: env_embedding_insert_fails_def env_ok_def embedding_of_def fun_eq_iff)
  have d: "d_id doc_long = ''long''" "d_title doc_long = ''Long''" "d_type doc_long = ''note''"
    "d_sourceFile doc_long = None"
    by (simp_all add: doc_long_def)
  have "add_chunks env_embedding_insert_fails doc_long [chunk_long_0, chunk_long_1, chunk_long_2] 0 empty_store
        = (Some StorageError,
           \<lparr>document_chunks = [row_long ''long_chunk_0'' chunk_long_0, row_long ''long_chunk_1'' chunk_long_1],
            embeddings = [(''long_chunk_0'', Json (JArray [1, 0]))]\<rparr>)"
    by (simp add: generateEmbedding_embed chunk_ids_long e d empty_store_def insert_or_replace_def
          new_row_def row_long_def JSON_stringify_def Let_def)
  then show ?thesis
    by (simp add: addDocument_def chunkText_long)
qed

lemma chunkText_allergy:
  "chunkText (d_content doc_allergy) None None =
     Some [\<lparr>ch_text = ''Patient is allergic to penicillin and shellfish.'', ch_index = 0\<rparr>]"
  unfolding doc_allergy_def by code_simp

lemma addDocument_allergy_first:
  "addDocument env_ok empty_store doc_allergy
     = Some (Inr \<lparr>success = True, chunksCreated = 1\<rparr>, store_after 1700000000000)"
proof -
  have ok: "\<forall>i. \<not> insert_chunk_fails env_ok i \<and> \<not> insert_embedding_fails env_ok i"
    by (simp add: env_ok_def)
  show ?thesis
    unfolding addDocument_ok[OF chunkText_allergy ok]
    by (simp add: new_rows_def new_embeddings_def new_row_def chunk_id_def digit_def
          insert_or_replace_def embedding_of_def env_ok_def empty_store_def doc_allergy_def
          store_after_def row_allergy_def JSON_stringify_def)
qed

lemma addDocument_allergy_second:
  "addDocument env_later (store_after 1700000000000) doc_allergy
     = Some (Inr \<lparr>success = True, chunksCreated = 1\<rparr>, store_after 1700000000001)"
proof -
  have ok: "\<forall>i. \<not> insert_chunk_fails env_later i \<and> \<not> insert_embedding_fails env_later i"
    by (simp add: env_later_def env_ok_def)
  show ?thesis
    unfolding addDocument_ok[OF chunkText_allergy ok]
    by (simp add: new_rows_def new_embeddings_def new_row_def chunk_id_def digit_def
          insert_or_replace_def embedding_of_def env_later_def env_ok_def doc_allergy_def
          store_after_def row_allergy_def JSON_stringify_def)
qed

lemma chunkText_small:
  "chunkText ''a b c d e'' (Some 3) (Some 1) =
     Some [\<lparr>ch_text = ''a b c'', ch_index = 0\<rparr>, \<lparr>ch_text = ''c d e'', ch_index = 1\<rparr>,
           \<lparr>ch_text = ''e'', ch_index = 2\<rparr>]"
  by code_simp

lemma chunk_words_small:
  "chunk_words \<lparr>ch_text = ''a b c'', ch_index = 0\<rparr> = [''a'', ''b'', ''c'']"
  "chunk_words \<lparr>ch_text = ''c d e'', ch_index = 1\<rparr> = [''c'', ''d'', ''e'']"
  "chunk_words \<lparr>ch_text = ''e'', ch_index = 2\<rparr> = [''e'']"
  by code_simp+

lemma search_reingested:
  "search env_ok store_reingested ''penicillin'' (Some 5) (Some 0)
     = Inr [result_allergy, result_note, result_labs]"
  by (simp add: search_eval ex_defs store_reingested_def cos_10_20 cos_10_01 cos_10_10
           del: cosineSimilarity.simps)

lemma candidates_reingested:
  "candidates env_ok store_reingested ''penicillin'' = [result_allergy, result_labs, result_note]"
  by (simp add: candidates_def search_eval ex_defs store_reingested_def cos_10_20 cos_10_01 cos_10_10
           del: cosineSimilarity.simps)

lemma cos_10_123: "cosineSimilarity (JArray [1, 0]) (JArray [1, 2, 3]) = 0"
  by simp


lemma search_corrupt_zero:
  "search env_ok store_corrupt ''penicillin'' (Some 5) (Some 0)
     = Inr [result_allergy, result_note\<lparr>relevanceScore := 0\<rparr>]"
  by (simp add: search_eval ex_defs store_corrupt_def cos_10_20 cos_10_123
           del: cosineSimilarity.simps)

lemma search_corrupt_default:
  "search env_ok store_corrupt ''penicillin'' None None = Inr [result_allergy]"
  by (simp add: search_eval ex_defs store_corrupt_def cos_10_20 cos_10_123
           del: cosineSimilarity.simps)

lemma pseudo_allergy_nonzero:
  "\<exists>x \<in> set (pseudo ''Patient is allergic to penicillin and shellfish.''). x \<noteq> 0"
  by (rule pseudo_nonzero[of 4 3]) (simp_all add: charCodeAt_or_0_def)

lemma cos_pseudo_allergy:
  "cosineSimilarity (JArray (pseudo ''Patient is allergic to penicillin and shellfish.''))
                    (JArray (pseudo ''Patient is allergic to penicillin and shellfish.'')) = 1"
  using pseudo_allergy_nonzero cosineSimilarity_self by blast

lemma search_down_allergy:
  "search env_down store_down ''Patient is allergic to penicillin and shellfish.'' None None
     = Inr [result_allergy]"
proof -
  have g: "generateEmbedding env_down ''Patient is allergic to penicillin and shellfish.''
           = Inr (pseudo ''Patient is allergic to penicillin and shellfish.'')"
    by (rule generateEmbedding_down) (simp add: env_down_def)
  have sel: "select_fails env_down = False" by (simp add: env_down_def env_ok_def)
  show ?thesis
    unfolding search_def g
    by (simp add: default_arg_def try_catch_def select_all_def sel store_down_def join_row_def
          row_allergy_def JSON_stringify_def cos_pseudo_allergy sort_desc_def slice0_def
          with_citation_def scored.defs search_result.defs generateCitation_def truthy_def digit_def
          result_allergy_def del: cosineSimilarity.simps)
qed

lemma search_down_allergy10:
  "search env_down store_down ''Patient is allergic to penicillin and shellfish.'' (Some 10) None
     = Inr [result_allergy]"
proof -
  have g: "generateEmbedding env_down ''Patient is allergic to penicillin and shellfish.''
           = Inr (pseudo ''Patient is allergic to penicillin and shellfish.'')"
    by (rule generateEmbedding_down) (simp add: env_down_def)
  have sel: "select_fails env_down = False" by (simp add: env_down_def env_ok_def)
  show ?thesis
    unfolding search_def g
    by (simp add: default_arg_def try_catch_def select_all_def sel store_down_def join_row_def
          row_allergy_def JSON_stringify_def cos_pseudo_allergy sort_desc_def slice0_def
          with_citation_def scored.defs search_result.defs generateCitation_def truthy_def digit_def
          result_allergy_def del: cosineSimilarity.simps)
qed

lemma getContext_down_allergy:
  "getContext env_down store_down ''Patient is allergic to penicillin and shellfish.'' None
     = Inr \<lparr>context_str = source_block result_allergy, citations = [cite result_allergy],
            tokenCount = 12\<rparr>"
  unfolding getContext_def search_down_allergy10
  by (simp add: default_arg_def estimatedTokens_allergy)

lemma getContext_total: "\<exists>r. getContext e st q mt = Inr r"
  using search_total[of e st q "Some 10" None] by (auto simp: getContext_def)

lemma search_readable_corrupt:
  "search env_ok (readable store_corrupt) ''penicillin'' (Some 5) (Some 0)
     = Inr [result_allergy, result_note\<lparr>relevanceScore := 0\<rparr>]"
  by (simp add: search_readable search_corrupt_zero)

lemma embedding_of_env_down: "embedding_of env_down t = pseudo t"
  by (simp add: embedding_of_def env_down_def env_ok_def)

lemma addDocument_down_allergy:
  "addDocument env_down empty_store doc_allergy
     = Some (Inr \<lparr>success = True, chunksCreated = 1\<rparr>, store_down)"
proof -
  have ok: "\<forall>i. \<not> insert_chunk_fails env_down i \<and> \<not> insert_embedding_fails env_down i"
    by (simp add: env_down_def env_ok_def)
  have now: "now env_down = (\<lambda>k. 1700000000000)" by (simp add: env_down_def env_ok_def)
  show ?thesis
    unfolding addDocument_ok[OF chunkText_allergy ok]
    by (simp add: new_rows_def new_embeddings_def new_row_def chunk_id_def digit_def
          insert_or_replace_def embedding_of_env_down now empty_store_def doc_allergy_def
          store_down_def row_allergy_def)
qed

section \<open>Claims about \<open>search\<close> and \<open>getContext\<close>\<close>

text \<open>
  C5, as stated: for every query, limit and threshold \<open>t\<close>, every record returned by
  \<open>search(query, limit, t)\<close> has \<open>relevanceScore \<ge> t\<close> and the list has at most
  \<open>limit\<close> records.  The second half fails for a negative limit: \<open>slice(0, -1)\<close> drops
  the last element only, so two of three matching chunks are returned for \<open>limit = -1\<close>.
\<close>

theorem search_limit_counterexample:
  "search env_ok store_three ''penicillin'' (Some (- 1)) (Some 0) = Inr [result_allergy, result_note]
   \<and> \<not> int (length [result_allergy, result_note]) \<le> - 1"
  by (simp add: search_three_negative_limit)

text \<open>
  C5, amended: \<open>search\<close> always returns a list; every record in it has a
  \<open>relevanceScore\<close> at or above the threshold (0.7 when none is given); and when the
  limit (5 when none is given) is not negative the list has at most that many records.
\<close>

theorem search_threshold_limit:
  "\<exists>rs. search e st q la ta = Inr rs
     \<and> (\<forall>r \<in> set rs. relevanceScore r \<ge> default_arg ta (7/10))
     \<and> (0 \<le> default_arg la 5 \<longrightarrow> int (length rs) \<le> default_arg la 5)"
  using search_properties[of e st q la ta] by blast

theorem search_threshold_limit_witness:
  "search env_ok store_three ''penicillin'' (Some 5) (Some 0)
     = Inr [result_allergy, result_note, result_labs]
   \<and> relevanceScore result_allergy \<ge> 0 \<and> relevanceScore result_note \<ge> 0
   \<and> relevanceScore result_labs \<ge> 0
   \<and> (0::int) \<le> 5 \<and> int (length [result_allergy, result_note, result_labs]) \<le> 5"
  using search_threshold_limit[of env_ok store_three "''penicillin''" "Some 5" "Some 0"]
  by (simp add: search_three_all default_arg_def)

text \<open>
  C6: the list returned by \<open>search\<close> is non-increasing in \<open>relevanceScore\<close>, and results
  of equal score keep their storage order: for every score \<open>k\<close>, the results with score
  \<open>k\<close> are an initial segment of the stored chunks with score \<open>k\<close> in the order in
  which the query reads them, and that order is the storage order of the embeddings (the
  ids of the chunks read form a subsequence of the ids of the \<open>embeddings\<close> table, given
  the primary key of \<open>document_chunks\<close>).
\<close>

theorem search_ranking_stable:
  "\<exists>rs. search e st q la ta = Inr rs
     \<and> sorted_wrt (\<lambda>a b. relevanceScore a \<ge> relevanceScore b) rs
     \<and> (\<forall>k. prefix (filter (\<lambda>r. relevanceScore r = k) rs)
                    (filter (\<lambda>r. relevanceScore r = k) (candidates e st q)))
     \<and> (distinct (map row_id (document_chunks st))
          \<longrightarrow> subseq (map s_id (candidates e st q)) (map fst (embeddings st)))"
  using search_properties[of e st q la ta] candidates_ids_subseq[of st e q] by blast

theorem search_ranking_stable_witness:
  "search env_ok store_reingested ''penicillin'' (Some 5) (Some 0)
     = Inr [result_allergy, result_note, result_labs]
   \<and> candidates env_ok store_reingested ''penicillin'' = [result_allergy, result_labs, result_note]
   \<and> map row_id (document_chunks store_reingested) = [''doc2_chunk_2'', ''doc3_chunk_0'', ''doc1_chunk_0'']
   \<and> map fst (embeddings store_reingested) = [''doc1_chunk_0'', ''doc2_chunk_2'', ''doc3_chunk_0'']
   \<and> distinct (map row_id (document_chunks store_reingested))
   \<and> sorted_wrt (\<lambda>a b. relevanceScore a \<ge> relevanceScore b)
        [result_allergy, result_note, result_labs]
   \<and> filter (\<lambda>r. relevanceScore r = 1) [result_allergy, result_note, result_labs]
       = filter (\<lambda>r. relevanceScore r = 1) [result_allergy, result_labs, result_note]
   \<and> map s_id [result_allergy, result_labs, result_note] = map fst (embeddings store_reingested)"
proof -
  have ids: "map row_id (document_chunks store_reingested) = [''doc2_chunk_2'', ''doc3_chunk_0'', ''doc1_chunk_0'']"
    "map fst (embeddings store_reingested) = [''doc1_chunk_0'', ''doc2_chunk_2'', ''doc3_chunk_0'']"
    by (simp_all add: store_reingested_def ex_defs)
  have d: "distinct (map row_id (document_chunks store_reingested))"
    unfolding ids by simp
  have s: "sorted_wrt (\<lambda>a b. relevanceScore a \<ge> relevanceScore b)
        [result_allergy, result_note, result_labs]"
    "filter (\<lambda>r. relevanceScore r = 1) [result_allergy, result_note, result_labs]
       = filter (\<lambda>r. relevanceScore r = 1) [result_allergy, result_labs, result_note]"
    "map s_id [result_allergy, result_labs, result_note] = map fst (embeddings store_reingested)"
    unfolding ids by (simp_all add: ex_defs)
  show ?thesis
    using search_ranking_stable[of env_ok store_reingested "''penicillin''" "Some 5" "Some 0"]
      search_reingested candidates_reingested ids d s
    by (intro conjI)
qed

text \<open>
  C10: \<open>getContext\<close> includes at most 10 chunks, and every chunk it cites has
  \<open>relevanceScore \<ge> 0.7\<close>: it calls \<open>search\<close> with limit 10 and the default threshold.
\<close>

theorem getContext_top10_threshold:
  "\<exists>r. getContext e st q mt = Inr r
     \<and> length (citations r) \<le> 10
     \<and> (\<forall>c \<in> set (citations r). c_relevanceScore c \<ge> 7/10)"
proof -
  obtain results where s: "search e st q (Some 10) None = Inr results"
    and above: "\<forall>r \<in> set results. relevanceScore r \<ge> 7/10"
    and atmost: "length results \<le> 10"
    using search_properties[of e st q "Some 10" None] by (auto simp: default_arg_def)
  let ?acc0 = "\<lparr>context_str = [], citations = [], tokenCount = 0\<rparr>"
  from context_loop_greedy[of results "default_arg mt 4000" ?acc0]
  obtain k where k: "k \<le> length results"
    and eq0: "context_loop (default_arg mt 4000) results ?acc0 =
       \<lparr>context_str = context_str ?acc0 @ concat (map source_block (take k results)),
        citations = citations ?acc0 @ map cite (take k results),
        tokenCount = tokenCount ?acc0 + sum_list (map estimatedTokens (take k results))\<rparr>"
    by blast
  have eq: "citations (context_loop (default_arg mt 4000) results ?acc0) = map cite (take k results)"
    by (simp add: eq0)
  have g: "getContext e st q mt = Inr (context_loop (default_arg mt 4000) results ?acc0)"
    by (simp add: getContext_def s)
  have len: "length (map cite (take k results)) \<le> 10"
    using k atmost by simp
  have "\<forall>r \<in> set (take k results). relevanceScore r \<ge> 7/10"
    using above by (meson in_set_takeD)
  then have sc: "\<forall>c \<in> set (map cite (take k results)). c_relevanceScore c \<ge> 7/10"
    by (simp add: cite_def)
  show ?thesis
    using g eq len sc by simp
qed

theorem getContext_top10_threshold_witness:
  "getContext env_ok store_three ''penicillin'' None =
     Inr \<lparr>context_str = source_block result_allergy @ source_block result_note,
          citations = [cite result_allergy, cite result_note], tokenCount = 18\<rparr>
   \<and> length [cite result_allergy, cite result_note] \<le> 10
   \<and> c_relevanceScore (cite result_allergy) \<ge> 7/10
   \<and> c_relevanceScore (cite result_note) \<ge> 7/10"
  using getContext_top10_threshold[of env_ok store_three "''penicillin''" None]
  by (simp add: getContext_three_default cite_def result_allergy_def result_note_def)




text \<open>
  C2, as stated: if the provider call throws at every invocation, \<open>search\<close> returns the
  empty list and \<open>getContext\<close> the empty context, and neither throws.  The first half
  fails: \<open>generateEmbedding\<close> catches the provider's error and returns the pseudo vector
  of the text, so a search goes on with that vector.  With the provider down throughout,
  ingesting one document and then querying with the text of its chunk returns that chunk,
  with score 1, and \<open>getContext\<close> returns it as context.
\<close>

theorem provider_down_counterexample:
  "has_api_key env_down \<and> (\<forall>t. provider env_down t = None)
   \<and> addDocument env_down empty_store doc_allergy
       = Some (Inr \<lparr>success = True, chunksCreated = 1\<rparr>, store_down)
   \<and> search env_down store_down ''Patient is allergic to penicillin and shellfish.'' None None
       = Inr [result_allergy]
   \<and> getContext env_down store_down ''Patient is allergic to penicillin and shellfish.'' None
       = Inr \<lparr>context_str = source_block result_allergy, citations = [cite result_allergy],
              tokenCount = 12\<rparr>"
  using search_down_allergy getContext_down_allergy addDocument_down_allergy
  by (simp add: env_down_def env_ok_def)

text \<open>
  C2, amended: neither \<open>search\<close> nor \<open>getContext\<close> throws; when the stored rows cannot
  be read, \<open>search\<close> returns the empty list and \<open>getContext\<close> the empty context with no
  citations and \<open>tokenCount\<close> 0; and when the provider call throws at every invocation,
  the query is embedded by the pseudo vector and both functions return what they return
  without an API key.
\<close>

theorem search_getContext_fail_soft:
  "(\<exists>rs. search e st q la ta = Inr rs)
   \<and> (\<exists>r. getContext e st q mt = Inr r)
   \<and> (select_fails e \<longrightarrow>
         search e st q la ta = Inr []
       \<and> getContext e st q mt = Inr \<lparr>context_str = [], citations = [], tokenCount = 0\<rparr>)
   \<and> ((\<forall>t. provider e t = None) \<longrightarrow>
         generateEmbedding e q = Inr (pseudo q)
       \<and> search e st q la ta = search (e\<lparr>has_api_key := False\<rparr>) st q la ta
       \<and> getContext e st q mt = getContext (e\<lparr>has_api_key := False\<rparr>) st q mt)"
proof -
  have unreadable: "search e st q la ta = Inr []" if "select_fails e" for la ta
    using that generateEmbedding_total[of e q]
    by (auto simp: search_def select_all_def try_catch_def Let_def)
  have unreadable_ctx: "getContext e st q mt = Inr \<lparr>context_str = [], citations = [], tokenCount = 0\<rparr>"
    if "select_fails e"
    by (simp add: getContext_def unreadable[OF that])
  have down: "generateEmbedding e q = Inr (pseudo q)
       \<and> search e st q la ta = search (e\<lparr>has_api_key := False\<rparr>) st q la ta
       \<and> getContext e st q mt = getContext (e\<lparr>has_api_key := False\<rparr>) st q mt"
    if d: "\<forall>t. provider e t = None"
  proof -
    have g: "generateEmbedding e q = Inr (pseudo q)" by (rule generateEmbedding_down[OF d])
    have g': "generateEmbedding (e\<lparr>has_api_key := False\<rparr>) q = generateEmbedding e q"
      unfolding g by (simp add: generateEmbedding_def try_catch_def)
    have s: "search (e\<lparr>has_api_key := False\<rparr>) st q la ta = search e st q la ta" for la ta
      by (rule search_env_cong[OF g']) simp
    show ?thesis using g s by (simp add: getContext_def)
  qed
  show ?thesis
    using search_total[of e st q la ta] getContext_total[of e st q mt]
      unreadable unreadable_ctx down
    by blast
qed

theorem search_getContext_fail_soft_witness:
  "(\<forall>t. provider env_down t = None)
   \<and> generateEmbedding env_down ''Patient is allergic to penicillin and shellfish.''
       = Inr (pseudo ''Patient is allergic to penicillin and shellfish.'')
   \<and> search env_down store_down ''Patient is allergic to penicillin and shellfish.'' None None
       = Inr [result_allergy]
   \<and> search (env_down\<lparr>has_api_key := False\<rparr>) store_down
         ''Patient is allergic to penicillin and shellfish.'' None None
       = Inr [result_allergy]
   \<and> select_fails env_unreadable
   \<and> search env_unreadable store_three ''penicillin'' None None = Inr []
   \<and> getContext env_unreadable store_three ''penicillin'' None
       = Inr \<lparr>context_str = [], citations = [], tokenCount = 0\<rparr>"
proof -
  have d: "\<forall>t. provider env_down t = None" by (simp add: env_down_def)
  have u: "select_fails env_unreadable" by (simp add: env_unreadable_def)
  from search_getContext_fail_soft[of env_down store_down
        "''Patient is allergic to penicillin and shellfish.''" None None None] d
  have 1: "generateEmbedding env_down ''Patient is allergic to penicillin and shellfish.''
       = Inr (pseudo ''Patient is allergic to penicillin and shellfish.'')"
    and 2: "search env_down store_down ''Patient is allergic to penicillin and shellfish.'' None None
       = search (env_down\<lparr>has_api_key := False\<rparr>) store_down
           ''Patient is allergic to penicillin and shellfish.'' None None"
    by blast+
  from search_getContext_fail_soft[of env_unreadable store_three "''penicillin''" None None None] u
  have 3: "search env_unreadable store_three ''penicillin'' None None = Inr []"
    and 4: "getContext env_unreadable store_three ''penicillin'' None
       = Inr \<lparr>context_str = [], citations = [], tokenCount = 0\<rparr>"
    by blast+
  show ?thesis
    using d u 1 2 3 4 search_down_allergy by simp
qed




section \<open>Claims about \<open>chunkText\<close> and \<open>addDocument\<close>\<close>

text \<open>
  C7: for window size \<open>S\<close> and overlap \<open>O < S\<close> (1000 and 200 when the arguments are
  omitted, as in \<open>addDocument\<close>), \<open>chunkText\<close> returns, consecutive chunks have
  consecutive ordinals, and the last \<open>O\<close> words of a chunk equal the first \<open>O\<close> words of
  the next chunk whenever that next chunk has at least \<open>O\<close> words; when \<open>2 * O \<le> S\<close>, as
  for 1000 and 200, every chunk but the final one has, so that the only exception is a
  final chunk that is shorter.
\<close>

theorem chunkText_overlap:
  assumes SO: "default_arg ov 200 < default_arg ms 1000"
  shows "\<exists>cs. chunkText content ms ov = Some cs
      \<and> (\<forall>p. Suc p < length cs \<longrightarrow>
            ch_index (cs ! Suc p) = Suc (ch_index (cs ! p))
          \<and> ((default_arg ov 200 \<le> length (chunk_words (cs ! Suc p))
               \<or> (2 * default_arg ov 200 \<le> default_arg ms 1000 \<and> Suc (Suc p) < length cs))
              \<longrightarrow> last_n (default_arg ov 200) (chunk_words (cs ! p))
                   = take (default_arg ov 200) (chunk_words (cs ! Suc p))))"
proof -
  let ?S = "default_arg ms 1000" and ?O = "default_arg ov 200"
  let ?ws = "split_ws content"
  let ?P = "\<lambda>k. ch_text (window_chunk ?ws ?S ?O k) \<noteq> []"
  let ?m = "window_count ?ws ?S ?O"
  let ?f = "filter ?P [0..<?m]"
  let ?cs = "map (window_chunk ?ws ?S ?O) ?f"
  let ?ne = "\<lambda>x::string. x \<noteq> []"
  have cs: "chunkText content ms ov = Some ?cs" by (rule chunkText_closed[OF SO])
  have inner: "\<And>j. 0 < j \<Longrightarrow> Suc j < ?m \<Longrightarrow> ?P j" by (rule kept_interior[OF SO])
  have main: "ch_index (?cs ! Suc p) = Suc (ch_index (?cs ! p))
      \<and> ((?O \<le> length (chunk_words (?cs ! Suc p)) \<or> (2 * ?O \<le> ?S \<and> Suc (Suc p) < length ?cs))
          \<longrightarrow> last_n ?O (chunk_words (?cs ! p)) = take ?O (chunk_words (?cs ! Suc p)))"
    if p: "Suc p < length ?cs" for p
  proof -
    let ?k = "?f ! p"
    have pl: "Suc p < length ?f" using p by simp
    have k1: "?f ! Suc p = Suc ?k" by (rule filter_upt_consecutive[OF inner pl])
    have c0: "?cs ! p = window_chunk ?ws ?S ?O ?k" using pl by simp
    have c1: "?cs ! Suc p = window_chunk ?ws ?S ?O (Suc ?k)" using pl k1 by simp
    have "?k \<in> set ?f" using pl by (meson Suc_lessD nth_mem)
    then have P0: "?P ?k" by simp
    have "?f ! Suc p \<in> set ?f" using pl by (meson nth_mem)
    then have P1: "?P (Suc ?k)" and km: "Suc ?k < ?m" using k1 by simp_all
    have w0: "chunk_words (?cs ! p) = filter ?ne (window ?ws ?S ?O ?k)"
      unfolding c0 by (rule window_words[OF P0])
    have w1: "chunk_words (?cs ! Suc p) = filter ?ne (window ?ws ?S ?O (Suc ?k))"
      unfolding c1 by (rule window_words[OF P1])
    have idx: "ch_index (?cs ! Suc p) = Suc (ch_index (?cs ! p))"
      unfolding c0 c1 by (simp add: window_chunk_def)
    have ov: "last_n ?O (chunk_words (?cs ! p)) = take ?O (chunk_words (?cs ! Suc p))"
      if long: "?O \<le> length (chunk_words (?cs ! Suc p))"
      using overlap_core[OF SO, of content ?k] long unfolding w0 w1 by simp
    have long: "?O \<le> length (chunk_words (?cs ! Suc p))"
      if half: "2 * ?O \<le> ?S" and nxt: "Suc (Suc p) < length ?cs"
    proof -
      have pl2: "Suc (Suc p) < length ?f" using nxt by simp
      have "?f ! Suc (Suc p) = Suc (?f ! Suc p)" by (rule filter_upt_consecutive[OF inner pl2])
      moreover have "?f ! Suc (Suc p) \<in> set ?f" using pl2 by (meson nth_mem)
      ultimately have "Suc (Suc ?k) < ?m" using k1 by simp
      then have "Suc (Suc ?k) * (?S - ?O) < length ?ws"
        using window_count_iff[of "?S - ?O" "Suc (Suc ?k)" "length ?ws"] SO
        by (simp add: window_count_def)
      then show ?thesis
        using nonfinal_long[OF SO half, of ?k content] unfolding w1 by simp
    qed
    show ?thesis using idx ov long by blast
  qed
  show ?thesis using cs main by blast
qed

theorem chunkText_overlap_witness:
  "default_arg (Some 1) 200 < default_arg (Some 3) (1000::nat)
   \<and> chunkText ''a b c d e'' (Some 3) (Some 1) =
       Some [\<lparr>ch_text = ''a b c'', ch_index = 0\<rparr>, \<lparr>ch_text = ''c d e'', ch_index = 1\<rparr>,
             \<lparr>ch_text = ''e'', ch_index = 2\<rparr>]
   \<and> last_n 1 (chunk_words \<lparr>ch_text = ''a b c'', ch_index = 0\<rparr>)
       = take 1 (chunk_words \<lparr>ch_text = ''c d e'', ch_index = 1\<rparr>)
   \<and> last_n 1 (chunk_words \<lparr>ch_text = ''c d e'', ch_index = 1\<rparr>)
       = take 1 (chunk_words \<lparr>ch_text = ''e'', ch_index = 2\<rparr>)"
proof -
  let ?c0 = "\<lparr>ch_text = ''a b c'', ch_index = 0\<rparr>"
  let ?c1 = "\<lparr>ch_text = ''c d e'', ch_index = 1\<rparr>"
  let ?c2 = "\<lparr>ch_text = ''e'', ch_index = 2\<rparr>"
  have d: "default_arg (Some 1) 200 = (1::nat)" "default_arg (Some 3) 1000 = (3::nat)"
    by (simp_all add: default_arg_def)
  have so: "default_arg (Some 1) 200 < default_arg (Some 3) (1000::nat)"
    unfolding d by simp
  from chunkText_overlap[OF so, of "''a b c d e''"] obtain cs where
    cs: "chunkText ''a b c d e'' (Some 3) (Some 1) = Some cs"
    and ov: "\<And>p. Suc p < length cs \<Longrightarrow>
       default_arg (Some 1) 200 \<le> length (chunk_words (cs ! Suc p)) \<Longrightarrow>
       last_n (default_arg (Some 1) 200) (chunk_words (cs ! p))
         = take (default_arg (Some 1) 200) (chunk_words (cs ! Suc p))"
    by blast
  have eq: "cs = [?c0, ?c1, ?c2]" using cs unfolding chunkText_small by simp
  have l1: "(1::nat) \<le> length (chunk_words ?c1)" and l2: "(1::nat) \<le> length (chunk_words ?c2)"
    unfolding chunk_words_small by simp_all
  have p0: "last_n 1 (chunk_words ?c0) = take 1 (chunk_words ?c1)"
    using ov[of 0] l1 unfolding eq d by simp
  have p1: "last_n 1 (chunk_words ?c1) = take 1 (chunk_words ?c2)"
    using ov[of 1] l2 unfolding eq d by simp
  show ?thesis
    using so chunkText_small p0 p1 by (intro conjI)
qed

text \<open>
  C3, as stated: if generating or persisting the embedding of one chunk fails, every other
  chunk of the document is still ingested.  The loop of \<open>addDocument\<close> has no handler of
  its own: a document of three chunks whose second embedding cannot be stored leaves the
  ingestion with the error, and its third chunk is not in the store.
\<close>

theorem addDocument_abort_counterexample:
  "chunkText (d_content doc_long) None None = Some [chunk_long_0, chunk_long_1, chunk_long_2]
   \<and> insert_embedding_fails env_embedding_insert_fails (chunk_id doc_long chunk_long_1)
   \<and> addDocument env_embedding_insert_fails empty_store doc_long =
       Some (Inl StorageError,
             \<lparr>document_chunks = [row_long ''long_chunk_0'' chunk_long_0,
                                 row_long ''long_chunk_1'' chunk_long_1],
              embeddings = [(''long_chunk_0'', Json (JArray [1, 0]))]\<rparr>)
   \<and> chunk_id doc_long chunk_long_2
       \<notin> row_id ` set [row_long ''long_chunk_0'' chunk_long_0, row_long ''long_chunk_1'' chunk_long_1]"
proof -
  have "insert_embedding_fails env_embedding_insert_fails (chunk_id doc_long chunk_long_1)"
    by (simp add: chunk_ids_long env_embedding_insert_fails_def)
  moreover have "chunk_id doc_long chunk_long_2
       \<notin> row_id ` set [row_long ''long_chunk_0'' chunk_long_0, row_long ''long_chunk_1'' chunk_long_1]"
    by (simp add: chunk_ids_long row_long_def)
  ultimately show ?thesis
    using chunkText_long addDocument_long_fails by simp
qed

text \<open>
  C3, amended: generating an embedding does not fail (the provider's failure is replaced
  by the pseudo vector); when storing a chunk or its embedding fails, \<open>addDocument\<close>
  throws at that chunk and leaves this store: the rows of the chunks before the failing
  one are stored, in order, after the rows of other ids, with their embeddings; the row of
  the failing chunk is stored too when it was its embedding that could not be stored; and
  for every chunk after the failing one the rows and embeddings of its id are what they
  were before the call: it is not ingested.
\<close>

theorem addDocument_aborts_at_failure:
  assumes chunks: "chunkText (d_content doc) None None = Some (pre @ c # post)"
    and ok: "\<forall>x \<in> set pre. \<not> insert_chunk_fails e (chunk_id doc x)
                           \<and> \<not> insert_embedding_fails e (chunk_id doc x)"
    and fail: "insert_chunk_fails e (chunk_id doc c) \<or> insert_embedding_fails e (chunk_id doc c)"
  shows "generateEmbedding e (ch_text c) = Inr (embedding_of e (ch_text c))
    \<and> (\<exists>st'. addDocument e st doc = Some (Inl StorageError, st')
        \<and> document_chunks st' =
            (if insert_chunk_fails e (chunk_id doc c)
             then filter (\<lambda>r. row_id r \<notin> chunk_id doc ` set pre) (document_chunks st)
                  @ new_rows e doc 0 pre
             else filter (\<lambda>r. row_id r \<notin> chunk_id doc ` set (pre @ [c])) (document_chunks st)
                  @ new_rows e doc 0 pre @ [new_row e doc (length pre) c])
        \<and> embeddings st' =
            filter (\<lambda>x. fst x \<notin> chunk_id doc ` set pre) (embeddings st)
            @ new_embeddings e doc pre
        \<and> (\<forall>x \<in> set post.
              filter (\<lambda>r. row_id r = chunk_id doc x) (document_chunks st')
                = filter (\<lambda>r. row_id r = chunk_id doc x) (document_chunks st)
            \<and> filter (\<lambda>y. fst y = chunk_id doc x) (embeddings st')
                = filter (\<lambda>y. fst y = chunk_id doc x) (embeddings st)))"
proof -
  let ?K = "chunk_id doc ` set pre"
  let ?Kc = "chunk_id doc ` set (pre @ [c])"
  have dist: "distinct (map (chunk_id doc) (pre @ c # post))"
    by (rule chunkText_default_ids[OF chunks])
  then have dpre: "distinct (map (chunk_id doc) pre)" by simp
  have cK: "chunk_id doc c \<notin> ?K" using dist by auto
  have cpost: "chunk_id doc c \<notin> chunk_id doc ` set post"
    and prepost: "?K \<inter> chunk_id doc ` set post = {}"
    using dist by auto
  have postK: "chunk_id doc x \<notin> ?Kc" if "x \<in> set post" for x
  proof -
    have "chunk_id doc x \<in> chunk_id doc ` set post" using that by (rule imageI)
    then have "chunk_id doc x \<noteq> chunk_id doc c" and "chunk_id doc x \<notin> ?K"
      using cpost prepost by auto
    then show ?thesis by auto
  qed
  have drows: "distinct (map row_id (new_rows e doc 0 pre))"
    using dpre by (simp add: new_rows_ids)
  have dembs: "distinct (map fst (new_embeddings e doc pre))"
    using dpre by (simp add: new_embeddings_ids)
  have krows: "row_id ` set (new_rows e doc 0 pre) = ?K"
    using new_rows_ids[of e doc 0 pre] by (metis set_map)
  have kembs: "fst ` set (new_embeddings e doc pre) = ?K"
    using new_embeddings_ids[of e doc pre] by (metis set_map)
  let ?rows_pre = "filter (\<lambda>r. row_id r \<notin> ?K) (document_chunks st) @ new_rows e doc 0 pre"
  let ?embs_pre = "filter (\<lambda>x. fst x \<notin> ?K) (embeddings st) @ new_embeddings e doc pre"
  let ?st_pre = "\<lparr>document_chunks = ?rows_pre, embeddings = ?embs_pre\<rparr>"
  have pre: "add_chunks e doc pre 0 st = (None, ?st_pre)"
    using add_chunks_ok[OF ok, of 0 st]
      foldl_insert_or_replace_fresh[OF drows, of "document_chunks st"]
      foldl_insert_or_replace_fresh[OF dembs, of "embeddings st"]
    by (simp add: krows kembs)
  have app: "add_chunks e doc (pre @ c # post) 0 st = add_chunks e doc (c # post) (length pre) ?st_pre"
    by (simp add: add_chunks_append pre)
  let ?rows_c = "filter (\<lambda>r. row_id r \<notin> ?Kc) (document_chunks st)
                 @ new_rows e doc 0 pre @ [new_row e doc (length pre) c]"
  have ins: "insert_or_replace row_id ?rows_pre (new_row e doc (length pre) c) = ?rows_c"
  proof -
    have id_c: "row_id (new_row e doc (length pre) c) = chunk_id doc c" by (simp add: new_row_def)
    have "\<forall>r \<in> set (new_rows e doc 0 pre). row_id r \<noteq> chunk_id doc c"
      using krows cK by (metis imageI)
    then have keep: "filter (\<lambda>r. row_id r \<noteq> chunk_id doc c) (new_rows e doc 0 pre) = new_rows e doc 0 pre"
      by (simp add: filter_id_conv)
    have old: "filter (\<lambda>r. row_id r \<noteq> chunk_id doc c) (filter (\<lambda>r. row_id r \<notin> ?K) (document_chunks st))
               = filter (\<lambda>r. row_id r \<notin> ?Kc) (document_chunks st)"
      by (auto intro!: filter_cong)
    show ?thesis
      by (simp only: insert_or_replace_def id_c filter_append keep old append_assoc)
  qed
  let ?st' = "\<lparr>document_chunks = (if insert_chunk_fails e (chunk_id doc c) then ?rows_pre else ?rows_c),
               embeddings = ?embs_pre\<rparr>"
  have step: "add_chunks e doc (c # post) (length pre) ?st_pre = (Some StorageError, ?st')"
  proof (cases "insert_chunk_fails e (chunk_id doc c)")
    case True
    then show ?thesis by (simp add: generateEmbedding_embed)
  next
    case False
    then have "insert_embedding_fails e (chunk_id doc c)" using fail by simp
    then show ?thesis using False ins by (simp add: generateEmbedding_embed Let_def)
  qed
  have ab: "add_chunks e doc (pre @ c # post) 0 st = (Some StorageError, ?st')"
    by (simp only: app step)
  have res: "addDocument e st doc = Some (Inl StorageError, ?st')"
    by (simp add: addDocument_def chunks ab)
  have later: "filter (\<lambda>r. row_id r = chunk_id doc x) (document_chunks ?st')
                = filter (\<lambda>r. row_id r = chunk_id doc x) (document_chunks st)
            \<and> filter (\<lambda>y. fst y = chunk_id doc x) (embeddings ?st')
                = filter (\<lambda>y. fst y = chunk_id doc x) (embeddings st)"
    if x: "x \<in> set post" for x
  proof -
    have xKc: "chunk_id doc x \<notin> ?Kc" by (rule postK[OF x])
    then have xK: "chunk_id doc x \<notin> ?K" and xc: "chunk_id doc x \<noteq> chunk_id doc c" by auto
    have r0: "filter (\<lambda>r. row_id r = chunk_id doc x) (new_rows e doc 0 pre) = []"
      by (rule filter_key_new_rows[OF xK])
    have e0: "filter (\<lambda>y. fst y = chunk_id doc x) (new_embeddings e doc pre) = []"
      by (rule filter_key_new_embeddings[OF xK])
    have rc: "filter (\<lambda>r. row_id r = chunk_id doc x) [new_row e doc (length pre) c] = []"
      using xc by (simp add: new_row_def)
    have a: "filter (\<lambda>r. row_id r = chunk_id doc x) ?rows_pre
             = filter (\<lambda>r. row_id r = chunk_id doc x) (document_chunks st)"
      by (simp only: filter_append r0 append_Nil2 filter_filter_other[OF xK])
    have b: "filter (\<lambda>r. row_id r = chunk_id doc x) ?rows_c
             = filter (\<lambda>r. row_id r = chunk_id doc x) (document_chunks st)"
      by (simp only: filter_append r0 rc append_Nil2 filter_filter_other[OF xKc])
    have c: "filter (\<lambda>y. fst y = chunk_id doc x) ?embs_pre
             = filter (\<lambda>y. fst y = chunk_id doc x) (embeddings st)"
      by (simp only: filter_append e0 append_Nil2 filter_filter_other[OF xK])
    show ?thesis using a b c by simp
  qed
  have g: "generateEmbedding e (ch_text c) = Inr (embedding_of e (ch_text c))"
    by (rule generateEmbedding_embed)
  have ex: "\<exists>st'. addDocument e st doc = Some (Inl StorageError, st')
        \<and> document_chunks st' =
            (if insert_chunk_fails e (chunk_id doc c) then ?rows_pre else ?rows_c)
        \<and> embeddings st' = ?embs_pre
        \<and> (\<forall>x \<in> set post.
              filter (\<lambda>r. row_id r = chunk_id doc x) (document_chunks st')
                = filter (\<lambda>r. row_id r = chunk_id doc x) (document_chunks st)
            \<and> filter (\<lambda>y. fst y = chunk_id doc x) (embeddings st')
                = filter (\<lambda>y. fst y = chunk_id doc x) (embeddings st))"
    apply (rule exI[of _ ?st'])
    apply (intro conjI)
       apply (rule res)
      apply simp
     apply simp
    using later apply blast
    done
  show ?thesis using g ex by (rule conjI)
qed

theorem addDocument_aborts_at_failure_witness:
  "chunkText (d_content doc_long) None None = Some ([chunk_long_0] @ chunk_long_1 # [chunk_long_2])
   \<and> \<not> insert_chunk_fails env_embedding_insert_fails (chunk_id doc_long chunk_long_0)
   \<and> \<not> insert_embedding_fails env_embedding_insert_fails (chunk_id doc_long chunk_long_0)
   \<and> \<not> insert_chunk_fails env_embedding_insert_fails (chunk_id doc_long chunk_long_1)
   \<and> insert_embedding_fails env_embedding_insert_fails (chunk_id doc_long chunk_long_1)
   \<and> addDocument env_embedding_insert_fails empty_store doc_long
       = Some (Inl StorageError,
               \<lparr>document_chunks = [row_long ''long_chunk_0'' chunk_long_0,
                                   row_long ''long_chunk_1'' chunk_long_1],
                embeddings = [(''long_chunk_0'', Json (JArray [1, 0]))]\<rparr>)
   \<and> filter (\<lambda>r. row_id r \<notin> chunk_id doc_long ` set ([chunk_long_0] @ [chunk_long_1]))
         (document_chunks empty_store)
       @ new_rows env_embedding_insert_fails doc_long 0 [chunk_long_0]
       @ [new_row env_embedding_insert_fails doc_long (length [chunk_long_0]) chunk_long_1]
       = [row_long ''long_chunk_0'' chunk_long_0, row_long ''long_chunk_1'' chunk_long_1]
   \<and> filter (\<lambda>x. fst x \<notin> chunk_id doc_long ` set [chunk_long_0]) (embeddings empty_store)
       @ new_embeddings env_embedding_insert_fails doc_long [chunk_long_0]
       = [(''long_chunk_0'', Json (JArray [1, 0]))]"
proof -
  let ?e = env_embedding_insert_fails
  have 1: "chunkText (d_content doc_long) None None = Some ([chunk_long_0] @ chunk_long_1 # [chunk_long_2])"
    by (simp add: chunkText_long)
  have f0: "\<not> insert_chunk_fails ?e (chunk_id doc_long chunk_long_0)"
    "\<not> insert_embedding_fails ?e (chunk_id doc_long chunk_long_0)"
    by (simp_all add: chunk_ids_long env_embedding_insert_fails_def env_ok_def)
  have 2: "\<forall>x \<in> set [chunk_long_0]. \<not> insert_chunk_fails ?e (chunk_id doc_long x)
              \<and> \<not> insert_embedding_fails ?e (chunk_id doc_long x)"
    using f0 by simp
  have f1: "\<not> insert_chunk_fails ?e (chunk_id doc_long chunk_long_1)"
    "insert_embedding_fails ?e (chunk_id doc_long chunk_long_1)"
    by (simp_all add: chunk_ids_long env_embedding_insert_fails_def env_ok_def)
  have 3: "insert_chunk_fails ?e (chunk_id doc_long chunk_long_1)
           \<or> insert_embedding_fails ?e (chunk_id doc_long chunk_long_1)"
    using f1 by simp
  from addDocument_aborts_at_failure[OF 1 2 3, of empty_store]
  obtain st' where res: "addDocument ?e empty_store doc_long = Some (Inl StorageError, st')"
    and rows: "document_chunks st' =
            (if insert_chunk_fails ?e (chunk_id doc_long chunk_long_1)
             then filter (\<lambda>r. row_id r \<notin> chunk_id doc_long ` set [chunk_long_0]) (document_chunks empty_store)
                  @ new_rows ?e doc_long 0 [chunk_long_0]
             else filter (\<lambda>r. row_id r \<notin> chunk_id doc_long ` set ([chunk_long_0] @ [chunk_long_1]))
                    (document_chunks empty_store)
                  @ new_rows ?e doc_long 0 [chunk_long_0]
                  @ [new_row ?e doc_long (length [chunk_long_0]) chunk_long_1])"
    and embs: "embeddings st' =
            filter (\<lambda>x. fst x \<notin> chunk_id doc_long ` set [chunk_long_0]) (embeddings empty_store)
            @ new_embeddings ?e doc_long [chunk_long_0]"
    by blast
  have st': "st' = \<lparr>document_chunks = [row_long ''long_chunk_0'' chunk_long_0,
                                   row_long ''long_chunk_1'' chunk_long_1],
                embeddings = [(''long_chunk_0'', Json (JArray [1, 0]))]\<rparr>"
    using res unfolding addDocument_long_fails by simp
  have r: "filter (\<lambda>r. row_id r \<notin> chunk_id doc_long ` set ([chunk_long_0] @ [chunk_long_1]))
         (document_chunks empty_store)
       @ new_rows ?e doc_long 0 [chunk_long_0]
       @ [new_row ?e doc_long (length [chunk_long_0]) chunk_long_1]
       = [row_long ''long_chunk_0'' chunk_long_0, row_long ''long_chunk_1'' chunk_long_1]"
    using rows f1(1) unfolding st' by simp
  have m: "filter (\<lambda>x. fst x \<notin> chunk_id doc_long ` set [chunk_long_0]) (embeddings empty_store)
       @ new_embeddings ?e doc_long [chunk_long_0]
       = [(''long_chunk_0'', Json (JArray [1, 0]))]"
    using embs unfolding st' by simp
  show ?thesis
    using 1 f0 f1 addDocument_long_fails r m by (intro conjI)
qed

text \<open>
  C8, as stated: calling \<open>addDocument\<close> twice with the same document leaves the store
  after the second call equal to the store after the first.  Each call stamps its rows
  with the clock of that call, so a second call one millisecond later leaves another store.
\<close>

theorem addDocument_twice_counterexample:
  "addDocument env_ok empty_store doc_allergy
     = Some (Inr \<lparr>success = True, chunksCreated = 1\<rparr>, store_after 1700000000000)
   \<and> addDocument env_later (store_after 1700000000000) doc_allergy
     = Some (Inr \<lparr>success = True, chunksCreated = 1\<rparr>, store_after 1700000000001)
   \<and> store_after 1700000000001 \<noteq> store_after 1700000000000"
proof -
  have "store_after 1700000000001 \<noteq> store_after 1700000000000"
  proof
    assume "store_after 1700000000001 = store_after 1700000000000"
    then have "map created_at (document_chunks (store_after 1700000000001))
             = map created_at (document_chunks (store_after 1700000000000))" by simp
    then show False by (simp add: store_after_def)
  qed
  then show ?thesis
    using addDocument_allergy_first addDocument_allergy_second by simp
qed

text \<open>
  C8, amended: when no storage statement fails, two calls of \<open>addDocument\<close> with the same
  document return the same result and write the same chunk ids (the document id, then
  \<open>_chunk_\<close>, then the chunk ordinal) for the chunks of \<open>chunkText\<close>; after the second
  call the chunk rows are those after the first call in every column but \<open>created_at\<close>,
  and the embeddings table has the same ids in the same order; the two stores are equal
  when both calls read the same clock values and get the same embeddings.
\<close>

theorem addDocument_twice:
  assumes ok1: "\<forall>i. \<not> insert_chunk_fails e1 i \<and> \<not> insert_embedding_fails e1 i"
    and ok2: "\<forall>i. \<not> insert_chunk_fails e2 i \<and> \<not> insert_embedding_fails e2 i"
  shows "\<exists>chunks st1 st2.
      chunkText (d_content doc) None None = Some chunks
    \<and> addDocument e1 st doc = Some (Inr \<lparr>success = True, chunksCreated = length chunks\<rparr>, st1)
    \<and> addDocument e2 st1 doc = Some (Inr \<lparr>success = True, chunksCreated = length chunks\<rparr>, st2)
    \<and> row_id ` set (document_chunks st1)
        = row_id ` set (document_chunks st) \<union> chunk_id doc ` set chunks
    \<and> map forget_time (document_chunks st2) = map forget_time (document_chunks st1)
    \<and> map fst (embeddings st2) = map fst (embeddings st1)
    \<and> ((\<forall>k. now e2 k = now e1 k)
         \<and> (\<forall>c \<in> set chunks. embedding_of e2 (ch_text c) = embedding_of e1 (ch_text c))
        \<longrightarrow> st2 = st1)"
proof -
  obtain chunks where chunks: "chunkText (d_content doc) None None = Some chunks"
    using chunkText_default_total by blast
  let ?r1 = "new_rows e1 doc 0 chunks" and ?r2 = "new_rows e2 doc 0 chunks"
  let ?m1 = "new_embeddings e1 doc chunks" and ?m2 = "new_embeddings e2 doc chunks"
  let ?st1 = "\<lparr>document_chunks = foldl (insert_or_replace row_id) (document_chunks st) ?r1,
               embeddings = foldl (insert_or_replace fst) (embeddings st) ?m1\<rparr>"
  let ?st2 = "\<lparr>document_chunks = foldl (insert_or_replace row_id) (document_chunks ?st1) ?r2,
               embeddings = foldl (insert_or_replace fst) (embeddings ?st1) ?m2\<rparr>"
  have a1: "addDocument e1 st doc = Some (Inr \<lparr>success = True, chunksCreated = length chunks\<rparr>, ?st1)"
    by (rule addDocument_ok[OF chunks ok1])
  have a2: "addDocument e2 ?st1 doc = Some (Inr \<lparr>success = True, chunksCreated = length chunks\<rparr>, ?st2)"
    by (rule addDocument_ok[OF chunks ok2])
  have "row_id ` set ?r1 = chunk_id doc ` set chunks"
    using new_rows_ids[of e1 doc 0 chunks] by (metis set_map)
  then have ids: "row_id ` set (document_chunks ?st1)
        = row_id ` set (document_chunks st) \<union> chunk_id doc ` set chunks"
    using keys_foldl_insert_or_replace[of row_id "document_chunks st" ?r1] by simp
  have rk: "map row_id ?r2 = map row_id ?r1" by (simp add: new_rows_ids)
  have rows: "map forget_time (document_chunks ?st2) = map forget_time (document_chunks ?st1)"
    using reingest_rows[of row_id ?r2 ?r1 forget_time row_id "document_chunks st", OF rk new_rows_forget]
    by (simp add: forget_time_def)
  have mk: "map fst ?m2 = map fst ?m1" by (simp add: new_embeddings_ids)
  have embs: "map fst (embeddings ?st2) = map fst (embeddings ?st1)"
    using reingest_rows[of fst ?m2 ?m1 fst "\<lambda>x. x" "embeddings st", OF mk mk] by simp
  have same: "?st2 = ?st1"
    if clock: "\<forall>k. now e2 k = now e1 k"
      and emb: "\<forall>c \<in> set chunks. embedding_of e2 (ch_text c) = embedding_of e1 (ch_text c)"
  proof -
    have r: "?r2 = ?r1" by (rule new_rows_same_clock[OF clock])
    have m: "?m2 = ?m1" using emb by (simp add: new_embeddings_def)
    show ?thesis
      using reingest_same[OF r, of row_id "document_chunks st"]
        reingest_same[OF m, of fst "embeddings st"] by simp
  qed
  show ?thesis
    apply (rule exI[of _ chunks], rule exI[of _ ?st1], rule exI[of _ ?st2])
    apply (intro conjI)
          apply (rule chunks)
         apply (rule a1)
        apply (rule a2)
       apply (rule ids)
      apply (rule rows)
     apply (rule embs)
    using same apply blast
    done
qed

theorem addDocument_twice_witness:
  "(\<forall>i. \<not> insert_chunk_fails env_ok i \<and> \<not> insert_embedding_fails env_ok i)
   \<and> (\<forall>i. \<not> insert_chunk_fails env_later i \<and> \<not> insert_embedding_fails env_later i)
   \<and> addDocument env_ok empty_store doc_allergy
       = Some (Inr \<lparr>success = True, chunksCreated = 1\<rparr>, store_after 1700000000000)
   \<and> addDocument env_later (store_after 1700000000000) doc_allergy
       = Some (Inr \<lparr>success = True, chunksCreated = 1\<rparr>, store_after 1700000000001)
   \<and> map forget_time (document_chunks (store_after 1700000000001))
       = map forget_time (document_chunks (store_after 1700000000000))
   \<and> map fst (embeddings (store_after 1700000000001))
       = map fst (embeddings (store_after 1700000000000))"
proof -
  have ok1: "\<forall>i. \<not> insert_chunk_fails env_ok i \<and> \<not> insert_embedding_fails env_ok i"
    by (simp add: env_ok_def)
  have ok2: "\<forall>i. \<not> insert_chunk_fails env_later i \<and> \<not> insert_embedding_fails env_later i"
    by (simp add: env_later_def env_ok_def)
  from addDocument_twice[OF ok1 ok2, of doc_allergy empty_store]
  have "map forget_time (document_chunks (store_after 1700000000001))
       = map forget_time (document_chunks (store_after 1700000000000))
     \<and> map fst (embeddings (store_after 1700000000001))
       = map fst (embeddings (store_after 1700000000000))"
    by (simp add: addDocument_allergy_first addDocument_allergy_second) (elim exE conjE, simp)
  with ok1 ok2 addDocument_allergy_first addDocument_allergy_second show ?thesis by simp
qed

end
